theory Spec2Isabelle
  imports Main
begin

section \<open>Shared data model (ch10/map.py, MapBase)\<close>

text \<open>
  Exceptions of the Python source are values: every function that can raise returns
  \<open>error + 'a\<close>, with \<open>Inl\<close> carrying the exception.
\<close>

datatype error = KeyError | AttributeError | ZeroDivisionError | ValueError

text \<open>
  \<open>MapBase._Item\<close>: a record with the two slots \<open>key\<close> and \<open>value\<close>.
\<close>

record ('k, 'v) item =
  key :: 'k
  val :: 'v

definition Item :: "'k \<Rightarrow> 'v \<Rightarrow> ('k, 'v) item" where
  "Item k v = \<lparr>key = k, val = v\<rparr>"

lemma key_Item [simp]: "key (Item k v) = k"
  by (simp add: Item_def)

lemma val_Item [simp]: "val (Item k v) = v"
  by (simp add: Item_def)

text \<open>
  The right operand of \<open>_Item.__eq__\<close> is an arbitrary Python object: either another
  \<open>_Item\<close>, or a bare key (which has no attribute \<open>key\<close>).
\<close>

datatype ('k, 'v) pyobj = ItemObj "('k, 'v) item" | KeyObj 'k

definition getattr_key :: "('k, 'v) pyobj \<Rightarrow> error + 'k" where
  "getattr_key ob = (case ob of ItemObj it \<Rightarrow> Inr (key it) | KeyObj _ \<Rightarrow> Inl AttributeError)"

definition item_eq :: "('k, 'v) item \<Rightarrow> ('k, 'v) pyobj \<Rightarrow> error + bool" where
  \<comment> \<open>\<open>_Item.__eq__\<close>: \<open>return self.key == other.key\<close>\<close>
  "item_eq self other =
     (case getattr_key other of Inl e \<Rightarrow> Inl e | Inr ok \<Rightarrow> Inr (key self = ok))"

section \<open>SortedTableMap (ch10/map.py)\<close>

text \<open>
  \<open>_find_index(k, low, high)\<close>: recursive binary search. Python integers are unbounded
  and \<open>//\<close> is floor division, which is \<open>div\<close> on \<open>int\<close>. Every call site passes
  \<open>low = 0\<close> and \<open>high = len(self._table) - 1\<close>, so \<open>mid\<close> stays inside the table.
\<close>

function find_index :: "('k::linorder, 'v) item list \<Rightarrow> 'k \<Rightarrow> int \<Rightarrow> int \<Rightarrow> int" where
  "find_index T k low high =
     (if high < low then high + 1
      else (let mid = (low + high) div 2 in
            if k = key (T ! nat mid) then mid
            else if k < key (T ! nat mid) then find_index T k low (mid - 1)
            else find_index T k (mid + 1) high))"
  by pat_completeness auto
termination
  by (relation "measure (\<lambda>(T, k, low, high). nat (high - low + 1))") auto

declare find_index.simps [simp del]

definition stm_len :: "('k, 'v) item list \<Rightarrow> nat" where
  "stm_len T = length T"

definition stm_getitem :: "('k::linorder, 'v) item list \<Rightarrow> 'k \<Rightarrow> error + 'v" where
  "stm_getitem T k =
     (let j = find_index T k 0 (int (length T) - 1) in
      if j = int (length T) \<or> key (T ! nat j) \<noteq> k then Inl KeyError
      else Inr (val (T ! nat j)))"

definition stm_setitem ::
  "('k::linorder, 'v) item list \<Rightarrow> 'k \<Rightarrow> 'v \<Rightarrow> ('k, 'v) item list" where
  "stm_setitem T k v =
     (let j = find_index T k 0 (int (length T) - 1) in
      if j < int (length T) \<and> key (T ! nat j) = k then T[nat j := (T ! nat j)\<lparr>val := v\<rparr>]
      else take (nat j) T @ [Item k v] @ drop (nat j) T)"

definition stm_delitem ::
  "('k::linorder, 'v) item list \<Rightarrow> 'k \<Rightarrow> error + ('k, 'v) item list" where
  "stm_delitem T k =
     (let j = find_index T k 0 (int (length T) - 1) in
      if j = int (length T) \<or> key (T ! nat j) \<noteq> k then Inl KeyError
      else Inr (take (nat j) T @ drop (Suc (nat j)) T))"

definition stm_iter :: "('k, 'v) item list \<Rightarrow> 'k list" where
  "stm_iter T = map key T"

definition stm_find_le :: "('k::linorder, 'v) item list \<Rightarrow> 'k \<Rightarrow> ('k \<times> 'v) option" where
  "stm_find_le T k =
     (let j = find_index T k 0 (int (length T) - 1) in
      if j > 0 then
        (if j < int (length T) \<and> key (T ! nat j) = k
         then Some (key (T ! nat j), val (T ! nat j))
         else Some (key (T ! nat (j - 1)), val (T ! nat (j - 1))))
      else None)"

text \<open>
  \<open>find_gt\<close> evaluates \<open>self._table[j] == k\<close>, that is \<open>_Item.__eq__\<close> with the bare
  key \<open>k\<close> as right operand; \<open>and\<close> short-circuits, so the comparison only runs when
  \<open>j < len(self._table)\<close>.
\<close>

definition stm_find_gt ::
  "('k::linorder, 'v) item list \<Rightarrow> 'k \<Rightarrow> error + ('k \<times> 'v) option" where
  "stm_find_gt T k =
     (let j = find_index T k 0 (int (length T) - 1) in
      case (if j < int (length T) then item_eq (T ! nat j) (KeyObj k) else Inr False) of
        Inl e \<Rightarrow> Inl e
      | Inr b \<Rightarrow>
          (let j' = (if b then j + 1 else j) in
           if j' < int (length T) then Inr (Some (key (T ! nat j'), val (T ! nat j')))
           else Inr None))"

text \<open>
  \<open>find_range\<close> is a generator; the model returns the list of pairs it yields. The
  loop runs \<open>j\<close> upwards to \<open>len(self._table)\<close>.
\<close>

function stm_range_loop ::
  "('k::linorder, 'v) item list \<Rightarrow> 'k option \<Rightarrow> nat \<Rightarrow> ('k \<times> 'v) list" where
  "stm_range_loop T stop j =
     (if j < length T \<and> (stop = None \<or> key (T ! j) < the stop)
      then (key (T ! j), val (T ! j)) # stm_range_loop T stop (Suc j)
      else [])"
  by pat_completeness auto
termination
  by (relation "measure (\<lambda>(T, stop, j). length T - j)") auto

declare stm_range_loop.simps [simp del]

definition stm_find_range ::
  "('k::linorder, 'v) item list \<Rightarrow> 'k option \<Rightarrow> 'k option \<Rightarrow> ('k \<times> 'v) list" where
  "stm_find_range T start stop =
     (let j = (case start of None \<Rightarrow> 0
               | Some s \<Rightarrow> find_index T s 0 (int (length T) - 1))
      in stm_range_loop T stop (nat j))"

text \<open>States reachable from the empty map by successful \<open>set\<close> and \<open>delete\<close> calls.\<close>

inductive stm_reachable :: "('k::linorder, 'v) item list \<Rightarrow> bool" where
  stm_init: "stm_reachable []"
| stm_set: "stm_reachable T \<Longrightarrow> stm_reachable (stm_setitem T k v)"
| stm_del: "stm_reachable T \<Longrightarrow> stm_delitem T k = Inr T' \<Longrightarrow> stm_reachable T'"

section \<open>UnsortedListMap (ch10/map.py)\<close>

fun ulm_getitem :: "('k, 'v) item list \<Rightarrow> 'k \<Rightarrow> error + 'v" where
  "ulm_getitem [] k = Inl KeyError"
| "ulm_getitem (it # T) k = (if k = key it then Inr (val it) else ulm_getitem T k)"

fun ulm_setitem :: "('k, 'v) item list \<Rightarrow> 'k \<Rightarrow> 'v \<Rightarrow> ('k, 'v) item list" where
  "ulm_setitem [] k v = [Item k v]"
| "ulm_setitem (it # T) k v =
     (if k = key it then it\<lparr>val := v\<rparr> # T else it # ulm_setitem T k v)"

fun ulm_delitem :: "('k, 'v) item list \<Rightarrow> 'k \<Rightarrow> error + ('k, 'v) item list" where
  "ulm_delitem [] k = Inl KeyError"
| "ulm_delitem (it # T) k =
     (if k = key it then Inr T
      else (case ulm_delitem T k of Inl e \<Rightarrow> Inl e | Inr T' \<Rightarrow> Inr (it # T')))"

definition ulm_len :: "('k, 'v) item list \<Rightarrow> nat" where
  "ulm_len T = length T"

definition ulm_iter :: "('k, 'v) item list \<Rightarrow> 'k list" where
  "ulm_iter T = map key T"

inductive ulm_reachable :: "('k, 'v) item list \<Rightarrow> bool" where
  ulm_init: "ulm_reachable []"
| ulm_set: "ulm_reachable T \<Longrightarrow> ulm_reachable (ulm_setitem T k v)"
| ulm_del: "ulm_reachable T \<Longrightarrow> ulm_delitem T k = Inr T' \<Longrightarrow> ulm_reachable T'"

section \<open>HashMapBase (ch10/map.py)\<close>

record 'b hashmap =
  table :: "'b list"
  n :: int
  prime :: int
  scale :: int
  shift :: int

definition hm_init :: "'b \<Rightarrow> nat \<Rightarrow> int \<Rightarrow> int \<Rightarrow> int \<Rightarrow> 'b hashmap" where
  "hm_init none cap p a b = \<lparr>table = replicate cap none, n = 0, prime = p, scale = a, shift = b\<rparr>"

definition hash_function :: "('k \<Rightarrow> int) \<Rightarrow> 'b hashmap \<Rightarrow> 'k \<Rightarrow> error + nat" where
  "hash_function H s k =
     (if prime s = 0 \<or> length (table s) = 0 then Inl ZeroDivisionError
      else Inr (nat (((scale s * H k + shift s) mod prime s) mod int (length (table s)))))"

definition hm_len :: "'b hashmap \<Rightarrow> int" where
  "hm_len s = n s"

definition hm_getitem ::
  "('b hashmap \<Rightarrow> nat \<Rightarrow> 'k \<Rightarrow> (error + 'v) option) \<Rightarrow> ('k \<Rightarrow> int) \<Rightarrow> 'b hashmap \<Rightarrow> 'k
   \<Rightarrow> (error + 'v) option" where
  "hm_getitem bucket_getitem H s k =
     (case hash_function H s k of
        Inl e \<Rightarrow> Some (Inl e)
      | Inr j \<Rightarrow> bucket_getitem s j k)"

definition hm_delitem ::
  "('b hashmap \<Rightarrow> nat \<Rightarrow> 'k \<Rightarrow> (error + 'b hashmap) option) \<Rightarrow> ('k \<Rightarrow> int) \<Rightarrow> 'b hashmap \<Rightarrow> 'k
   \<Rightarrow> (error + 'b hashmap) option" where
  "hm_delitem bucket_delitem H s k =
     (case hash_function H s k of
        Inl e \<Rightarrow> Some (Inl e)
      | Inr j \<Rightarrow>
          (case bucket_delitem s j k of
             None \<Rightarrow> None
           | Some (Inl e) \<Rightarrow> Some (Inl e)
           | Some (Inr s') \<Rightarrow> Some (Inr (s'\<lparr>n := n s' - 1\<rparr>))))"

fun hm_items ::
  "('k \<Rightarrow> (error + 'v) option) \<Rightarrow> 'k list \<Rightarrow> (error + ('k \<times> 'v) list) option" where
  "hm_items get [] = Some (Inr [])"
| "hm_items get (k # ks) =
     (case get k of
        None \<Rightarrow> None
      | Some (Inl e) \<Rightarrow> Some (Inl e)
      | Some (Inr v) \<Rightarrow>
          (case hm_items get ks of
             None \<Rightarrow> None
           | Some (Inl e) \<Rightarrow> Some (Inl e)
           | Some (Inr kvs) \<Rightarrow> Some (Inr ((k, v) # kvs))))"

fun hm_reinsert ::
  "('s \<Rightarrow> 'k \<Rightarrow> 'v \<Rightarrow> (error + 's) option) \<Rightarrow> ('k \<times> 'v) list \<Rightarrow> 's \<Rightarrow> (error + 's) option" where
  "hm_reinsert setitem [] s = Some (Inr s)"
| "hm_reinsert setitem ((k, v) # old) s =
     (case setitem s k v of
        None \<Rightarrow> None
      | Some (Inl e) \<Rightarrow> Some (Inl e)
      | Some (Inr s') \<Rightarrow> hm_reinsert setitem old s')"

definition hm_resize ::
  "'b \<Rightarrow> ('b hashmap \<Rightarrow> 'k list) \<Rightarrow> ('b hashmap \<Rightarrow> 'k \<Rightarrow> (error + 'v) option)
   \<Rightarrow> ('b hashmap \<Rightarrow> 'k \<Rightarrow> 'v \<Rightarrow> (error + 'b hashmap) option)
   \<Rightarrow> 'b hashmap \<Rightarrow> int \<Rightarrow> (error + 'b hashmap) option" where
  "hm_resize none iter getitem setitem s cap =
     (case hm_items (getitem s) (iter s) of
        None \<Rightarrow> None
      | Some (Inl e) \<Rightarrow> Some (Inl e)
      | Some (Inr old) \<Rightarrow>
          hm_reinsert setitem old (s\<lparr>table := replicate (nat cap) none, n := 0\<rparr>))"

primrec hm_setitem ::
  "'b \<Rightarrow> ('b hashmap \<Rightarrow> 'k list) \<Rightarrow> ('b hashmap \<Rightarrow> nat \<Rightarrow> 'k \<Rightarrow> (error + 'v) option)
   \<Rightarrow> ('b hashmap \<Rightarrow> nat \<Rightarrow> 'k \<Rightarrow> 'v \<Rightarrow> (error + 'b hashmap) option)
   \<Rightarrow> nat \<Rightarrow> ('k \<Rightarrow> int) \<Rightarrow> 'b hashmap \<Rightarrow> 'k \<Rightarrow> 'v \<Rightarrow> (error + 'b hashmap) option" where
  "hm_setitem none iter bget bset 0 H s k v = None"
| "hm_setitem none iter bget bset (Suc depth) H s k v =
     (case hash_function H s k of
        Inl e \<Rightarrow> Some (Inl e)
      | Inr j \<Rightarrow>
          (case bset s j k v of
             None \<Rightarrow> None
           | Some (Inl e) \<Rightarrow> Some (Inl e)
           | Some (Inr s1) \<Rightarrow>
               if n s1 > int (length (table s1)) div 2
               then hm_resize none iter (hm_getitem bget H)
                      (hm_setitem none iter bget bset depth H)
                      s1 (2 * int (length (table s1)) - 1)
               else Some (Inr s1)))"


section \<open>ChainHashMap (ch10/map.py)\<close>

type_synonym ('k, 'v) chainmap = "('k, 'v) item list option hashmap"

definition chm_bucket_getitem :: "('k, 'v) chainmap \<Rightarrow> nat \<Rightarrow> 'k \<Rightarrow> (error + 'v) option" where
  "chm_bucket_getitem s j k =
     Some (case table s ! j of None \<Rightarrow> Inl KeyError | Some bucket \<Rightarrow> ulm_getitem bucket k)"

definition chm_bucket_setitem ::
  "('k, 'v) chainmap \<Rightarrow> nat \<Rightarrow> 'k \<Rightarrow> 'v \<Rightarrow> (error + ('k, 'v) chainmap) option" where
  "chm_bucket_setitem s j k v =
     (let bucket = (case table s ! j of None \<Rightarrow> [] | Some b \<Rightarrow> b);
          oldsize = ulm_len bucket;
          bucket' = ulm_setitem bucket k v
      in Some (Inr (s\<lparr>table := (table s)[j := Some bucket'],
                      n := (if ulm_len bucket' > oldsize then n s + 1 else n s)\<rparr>)))"

definition chm_bucket_delitem ::
  "('k, 'v) chainmap \<Rightarrow> nat \<Rightarrow> 'k \<Rightarrow> (error + ('k, 'v) chainmap) option" where
  "chm_bucket_delitem s j k =
     Some (case table s ! j of
             None \<Rightarrow> Inl KeyError
           | Some bucket \<Rightarrow>
               (case ulm_delitem bucket k of
                  Inl e \<Rightarrow> Inl e
                | Inr bucket' \<Rightarrow> Inr (s\<lparr>table := (table s)[j := Some bucket']\<rparr>)))"

definition chm_iter :: "('k, 'v) chainmap \<Rightarrow> 'k list" where
  "chm_iter s = concat (map (\<lambda>b. case b of None \<Rightarrow> [] | Some bucket \<Rightarrow> ulm_iter bucket) (table s))"

definition chm_getitem :: "('k \<Rightarrow> int) \<Rightarrow> ('k, 'v) chainmap \<Rightarrow> 'k \<Rightarrow> (error + 'v) option" where
  "chm_getitem = hm_getitem chm_bucket_getitem"

definition chm_setitem ::
  "nat \<Rightarrow> ('k \<Rightarrow> int) \<Rightarrow> ('k, 'v) chainmap \<Rightarrow> 'k \<Rightarrow> 'v \<Rightarrow> (error + ('k, 'v) chainmap) option" where
  "chm_setitem = hm_setitem None chm_iter chm_bucket_getitem chm_bucket_setitem"

definition chm_delitem ::
  "('k \<Rightarrow> int) \<Rightarrow> ('k, 'v) chainmap \<Rightarrow> 'k \<Rightarrow> (error + ('k, 'v) chainmap) option" where
  "chm_delitem = hm_delitem chm_bucket_delitem"

inductive chm_reachable :: "('k \<Rightarrow> int) \<Rightarrow> ('k, 'v) chainmap \<Rightarrow> bool" for H where
  chm_init: "2 \<le> p \<Longrightarrow> 1 \<le> a \<Longrightarrow> a < p \<Longrightarrow> 0 \<le> b \<Longrightarrow> b < p
             \<Longrightarrow> chm_reachable H (hm_init None cap p a b)"
| chm_set: "chm_reachable H s \<Longrightarrow> chm_setitem depth H s k v = Some (Inr s')
            \<Longrightarrow> chm_reachable H s'"
| chm_del: "chm_reachable H s \<Longrightarrow> chm_delitem H s k = Some (Inr s') \<Longrightarrow> chm_reachable H s'"

section \<open>ProbeHashMap (ch10/map.py)\<close>

datatype ('k, 'v) slot = EmptySlot | Avail | Entry "('k, 'v) item"

type_synonym ('k, 'v) probemap = "('k, 'v) slot hashmap"

definition is_available :: "('k, 'v) slot list \<Rightarrow> nat \<Rightarrow> bool" where
  "is_available T j = (T ! j = EmptySlot \<or> T ! j = Avail)"

partial_function (option) find_slot ::
  "('k, 'v) slot list \<Rightarrow> nat \<Rightarrow> 'k \<Rightarrow> nat option \<Rightarrow> (bool \<times> nat) option" where
  "find_slot T j k first_avail =
     (case T ! j of
        Entry it \<Rightarrow>
          if k = key it then Some (True, j)
          else find_slot T ((j + 1) mod length T) k first_avail
      | _ \<Rightarrow>
          (let fa = (case first_avail of None \<Rightarrow> j | Some a \<Rightarrow> a) in
           if T ! j = EmptySlot then Some (False, fa)
           else find_slot T ((j + 1) mod length T) k (Some fa)))"

declare find_slot.simps [code]

definition phm_bucket_getitem :: "('k, 'v) probemap \<Rightarrow> nat \<Rightarrow> 'k \<Rightarrow> (error + 'v) option" where
  "phm_bucket_getitem s j k =
     (case find_slot (table s) j k None of
        None \<Rightarrow> None
      | Some (found, sl) \<Rightarrow>
          if \<not> found then Some (Inl KeyError)
          else (case table s ! sl of
                  Entry it \<Rightarrow> Some (Inr (val it))
                | _ \<Rightarrow> Some (Inl AttributeError)))"

definition phm_bucket_setitem ::
  "('k, 'v) probemap \<Rightarrow> nat \<Rightarrow> 'k \<Rightarrow> 'v \<Rightarrow> (error + ('k, 'v) probemap) option" where
  "phm_bucket_setitem s j k v =
     (case find_slot (table s) j k None of
        None \<Rightarrow> None
      | Some (found, sl) \<Rightarrow>
          if \<not> found
          then Some (Inr (s\<lparr>table := (table s)[sl := Entry (Item k v)], n := n s + 1\<rparr>))
          else (case table s ! sl of
                  Entry it \<Rightarrow> Some (Inr (s\<lparr>table := (table s)[sl := Entry (it\<lparr>val := v\<rparr>)]\<rparr>))
                | _ \<Rightarrow> Some (Inl AttributeError)))"

definition phm_bucket_delitem ::
  "('k, 'v) probemap \<Rightarrow> nat \<Rightarrow> 'k \<Rightarrow> (error + ('k, 'v) probemap) option" where
  "phm_bucket_delitem s j k =
     (case find_slot (table s) j k None of
        None \<Rightarrow> None
      | Some (found, sl) \<Rightarrow>
          if \<not> found then Some (Inl KeyError)
          else Some (Inr (s\<lparr>table := (table s)[sl := Avail]\<rparr>)))"

definition phm_iter :: "('k, 'v) probemap \<Rightarrow> 'k list" where
  "phm_iter s =
     concat (map (\<lambda>j. if \<not> is_available (table s) j
                       then (case table s ! j of Entry it \<Rightarrow> [key it] | _ \<Rightarrow> [])
                       else [])
                 [0..<length (table s)])"

definition phm_getitem :: "('k \<Rightarrow> int) \<Rightarrow> ('k, 'v) probemap \<Rightarrow> 'k \<Rightarrow> (error + 'v) option" where
  "phm_getitem = hm_getitem phm_bucket_getitem"

definition phm_setitem ::
  "nat \<Rightarrow> ('k \<Rightarrow> int) \<Rightarrow> ('k, 'v) probemap \<Rightarrow> 'k \<Rightarrow> 'v \<Rightarrow> (error + ('k, 'v) probemap) option" where
  "phm_setitem = hm_setitem EmptySlot phm_iter phm_bucket_getitem phm_bucket_setitem"

definition phm_delitem ::
  "('k \<Rightarrow> int) \<Rightarrow> ('k, 'v) probemap \<Rightarrow> 'k \<Rightarrow> (error + ('k, 'v) probemap) option" where
  "phm_delitem = hm_delitem phm_bucket_delitem"

inductive phm_reachable :: "('k \<Rightarrow> int) \<Rightarrow> ('k, 'v) probemap \<Rightarrow> bool" for H where
  phm_init: "2 \<le> p \<Longrightarrow> 1 \<le> a \<Longrightarrow> a < p \<Longrightarrow> 0 \<le> b \<Longrightarrow> b < p
             \<Longrightarrow> phm_reachable H (hm_init EmptySlot cap p a b)"
| phm_set: "phm_reachable H s \<Longrightarrow> phm_setitem depth H s k v = Some (Inr s')
            \<Longrightarrow> phm_reachable H s'"
| phm_del: "phm_reachable H s \<Longrightarrow> phm_delitem H s k = Some (Inr s') \<Longrightarrow> phm_reachable H s'"

section \<open>The positional binary tree used by TreeMap\<close>

text \<open>
  \<open>TreeMap\<close> inherits from \<open>LinkedBinaryTree\<close> (module \<open>ch8.tree\<close>), whose source is
  not part of the files at hand. Its operations are modelled from the specification,
  section 4.6: a positional binary tree with \<open>root\<close>, \<open>left\<close>, \<open>right\<close>, \<open>parent\<close>,
  \<open>addRoot\<close>, \<open>addLeft\<close>, \<open>addRight\<close>, \<open>replace\<close>, \<open>delete\<close> and \<open>isEmpty\<close>.
  A tree is a term; a position designates a node by the path leading to it from the
  root, so the parent of a position is the path without its last step.
\<close>

datatype dir = L | R

type_synonym pos = "dir list"

datatype 'a bintree = Leaf | Node "'a bintree" 'a "'a bintree"

fun subtree :: "'a bintree \<Rightarrow> pos \<Rightarrow> 'a bintree" where
  "subtree t [] = t"
| "subtree Leaf (d # p) = Leaf"
| "subtree (Node l e r) (L # p) = subtree l p"
| "subtree (Node l e r) (R # p) = subtree r p"

fun modify :: "('a bintree \<Rightarrow> 'a bintree) \<Rightarrow> 'a bintree \<Rightarrow> pos \<Rightarrow> 'a bintree" where
  "modify f t [] = f t"
| "modify f Leaf (d # p) = Leaf"
| "modify f (Node l e r) (L # p) = Node (modify f l p) e r"
| "modify f (Node l e r) (R # p) = Node l e (modify f r p)"

definition pos2node :: "'a bintree \<Rightarrow> pos \<Rightarrow> error + unit" where
  \<comment> \<open>Modelled from the spec: the validity check of a position (source comment: the node
      at the position must still be valid); a path that designates no node is rejected.\<close>
  "pos2node t p = (if subtree t p = Leaf then Inl ValueError else Inr ())"

definition is_empty :: "'a bintree \<Rightarrow> bool" where
  \<comment> \<open>Modelled from the spec: \<open>isEmpty()\<close>.\<close>
  "is_empty t = (t = Leaf)"

definition tree_len :: "'a bintree \<Rightarrow> nat" where
  \<comment> \<open>Modelled from the spec: \<open>length()\<close>, the number of nodes.\<close>
  "tree_len t = size t"

definition root :: "'a bintree \<Rightarrow> pos option" where
  \<comment> \<open>Modelled from the spec: \<open>root()\<close>, \<open>None\<close> for the empty tree.\<close>
  "root t = (if t = Leaf then None else Some [])"

definition left :: "'a bintree \<Rightarrow> pos \<Rightarrow> pos option" where
  \<comment> \<open>Modelled from the spec: \<open>left(p)\<close>, \<open>None\<close> when there is no left child.\<close>
  "left t p = (if subtree t (p @ [L]) = Leaf then None else Some (p @ [L]))"

definition right :: "'a bintree \<Rightarrow> pos \<Rightarrow> pos option" where
  \<comment> \<open>Modelled from the spec: \<open>right(p)\<close>, \<open>None\<close> when there is no right child.\<close>
  "right t p = (if subtree t (p @ [R]) = Leaf then None else Some (p @ [R]))"

definition parent :: "'a bintree \<Rightarrow> pos \<Rightarrow> pos option" where
  \<comment> \<open>Modelled from the spec: \<open>parent(p)\<close>, \<open>None\<close> for the root.\<close>
  "parent t p = (if p = [] then None else Some (butlast p))"

definition element :: "'a bintree \<Rightarrow> pos \<Rightarrow> error + 'a" where
  \<comment> \<open>Modelled from the spec: the Entry held by the node at a position.\<close>
  "element t p = (case subtree t p of Leaf \<Rightarrow> Inl ValueError | Node l e r \<Rightarrow> Inr e)"

definition add_root :: "'a bintree \<Rightarrow> 'a \<Rightarrow> error + 'a bintree" where
  \<comment> \<open>Modelled from the spec: \<open>addRoot(e)\<close> on an empty tree.\<close>
  "add_root t e = (if t = Leaf then Inr (Node Leaf e Leaf) else Inl ValueError)"

definition add_left :: "'a bintree \<Rightarrow> pos \<Rightarrow> 'a \<Rightarrow> error + 'a bintree" where
  \<comment> \<open>Modelled from the spec: \<open>addLeft(p, e)\<close> attaches a new leaf as left child of \<open>p\<close>.\<close>
  "add_left t p e =
     (case subtree t p of
        Node Leaf x r \<Rightarrow> Inr (modify (\<lambda>s. Node (Node Leaf e Leaf) x r) t p)
      | _ \<Rightarrow> Inl ValueError)"

definition add_right :: "'a bintree \<Rightarrow> pos \<Rightarrow> 'a \<Rightarrow> error + 'a bintree" where
  \<comment> \<open>Modelled from the spec: \<open>addRight(p, e)\<close> attaches a new leaf as right child of \<open>p\<close>.\<close>
  "add_right t p e =
     (case subtree t p of
        Node l x Leaf \<Rightarrow> Inr (modify (\<lambda>s. Node l x (Node Leaf e Leaf)) t p)
      | _ \<Rightarrow> Inl ValueError)"

definition replace :: "'a bintree \<Rightarrow> pos \<Rightarrow> 'a \<Rightarrow> error + 'a bintree" where
  \<comment> \<open>Modelled from the spec: \<open>replace(p, e)\<close> stores \<open>e\<close> in the node at \<open>p\<close>.\<close>
  "replace t p e =
     (case subtree t p of
        Leaf \<Rightarrow> Inl ValueError
      | Node l x r \<Rightarrow> Inr (modify (\<lambda>s. Node l e r) t p))"

definition tree_delete :: "'a bintree \<Rightarrow> pos \<Rightarrow> error + 'a bintree" where
  \<comment> \<open>Modelled from the spec: \<open>delete(p)\<close> removes a node with at most one child,
      promoting its child if present.\<close>
  "tree_delete t p =
     (case subtree t p of
        Leaf \<Rightarrow> Inl ValueError
      | Node l x Leaf \<Rightarrow> Inr (modify (\<lambda>s. l) t p)
      | Node Leaf x r \<Rightarrow> Inr (modify (\<lambda>s. r) t p)
      | _ \<Rightarrow> Inl ValueError)"

section \<open>TreeMap (ch11/binary_search_tree.py)\<close>

text \<open>
  \<open>Position.key()\<close> and \<open>Position.value()\<close> read the Entry stored at a position.
\<close>

definition pos_key :: "('k, 'v) item bintree \<Rightarrow> pos \<Rightarrow> error + 'k" where
  "pos_key t p = (case element t p of Inl e \<Rightarrow> Inl e | Inr it \<Rightarrow> Inr (key it))"

definition pos_value :: "('k, 'v) item bintree \<Rightarrow> pos \<Rightarrow> error + 'v" where
  "pos_value t p = (case element t p of Inl e \<Rightarrow> Inl e | Inr it \<Rightarrow> Inr (val it))"

lemma subtree_Leaf [simp]: "subtree Leaf p = Leaf"
  by (cases p) auto

lemma subtree_append: "subtree t (p @ q) = subtree (subtree t p) q"
  by (induction t p rule: subtree.induct) auto

lemma left_smaller: "left t p = Some q \<Longrightarrow> size (subtree t q) < size (subtree t p)"
  by (cases "subtree t p") (auto simp: left_def subtree_append split: if_splits)

lemma right_smaller: "right t p = Some q \<Longrightarrow> size (subtree t q) < size (subtree t p)"
  by (cases "subtree t p") (auto simp: right_def subtree_append split: if_splits)

function subtree_search :: "('k::linorder, 'v) item bintree \<Rightarrow> pos \<Rightarrow> 'k \<Rightarrow> error + pos" where
  "subtree_search t p k =
     (case pos_key t p of
        Inl e \<Rightarrow> Inl e
      | Inr kp \<Rightarrow>
          if k = kp then Inr p
          else if k < kp then
            (case left t p of Some q \<Rightarrow> subtree_search t q k | None \<Rightarrow> Inr p)
          else
            (case right t p of Some q \<Rightarrow> subtree_search t q k | None \<Rightarrow> Inr p))"
  by pat_completeness auto
termination
  by (relation "measure (\<lambda>(t, p, k). size (subtree t p))")
     (auto simp: left_smaller right_smaller)

function subtree_first_position :: "'a bintree \<Rightarrow> pos \<Rightarrow> pos" where
  "subtree_first_position t walk =
     (case left t walk of Some q \<Rightarrow> subtree_first_position t q | None \<Rightarrow> walk)"
  by pat_completeness auto
termination
  by (relation "measure (\<lambda>(t, p). size (subtree t p))") (auto simp: left_smaller)

function subtree_last_position :: "'a bintree \<Rightarrow> pos \<Rightarrow> pos" where
  "subtree_last_position t walk =
     (case right t walk of Some q \<Rightarrow> subtree_last_position t q | None \<Rightarrow> walk)"
  by pat_completeness auto
termination
  by (relation "measure (\<lambda>(t, p). size (subtree t p))") (auto simp: right_smaller)

function after_climb :: "'a bintree \<Rightarrow> pos \<Rightarrow> pos option \<Rightarrow> pos option" where
  "after_climb t walk ancestor =
     (case ancestor of
        None \<Rightarrow> None
      | Some a \<Rightarrow> if Some walk = right t a then after_climb t a (parent t a) else Some a)"
  by pat_completeness auto
termination
  by (relation "measure (\<lambda>(t, w, a). case a of None \<Rightarrow> 0 | Some q \<Rightarrow> Suc (length q))")
     (auto simp: parent_def split: option.splits if_splits)


declare subtree_search.simps [simp del] subtree_first_position.simps [simp del]
  subtree_last_position.simps [simp del] after_climb.simps [simp del]

definition tm_after :: "'a bintree \<Rightarrow> pos \<Rightarrow> error + pos option" where
  "tm_after t p =
     (case pos2node t p of
        Inl e \<Rightarrow> Inl e
      | Inr _ \<Rightarrow>
          (case right t p of
             Some q \<Rightarrow> Inr (Some (subtree_first_position t q))
           | None \<Rightarrow> Inr (after_climb t p (parent t p))))"

definition first :: "'a bintree \<Rightarrow> pos option" where
  "first t =
     (if tree_len t > 0
      then (case root t of None \<Rightarrow> None | Some r \<Rightarrow> Some (subtree_first_position t r))
      else None)"

definition find_position :: "('k::linorder, 'v) item bintree \<Rightarrow> 'k \<Rightarrow> error + pos option" where
  "find_position t k =
     (if is_empty t then Inr None
      else (case root t of
              None \<Rightarrow> Inr None
            | Some r \<Rightarrow>
                (case subtree_search t r k of Inl e \<Rightarrow> Inl e | Inr p \<Rightarrow> Inr (Some p))))"

text \<open>
  \<open>find_ge\<close> ends with \<open>return p.key(), p.value() if p is not None else None\<close>. The
  conditional expression binds tighter than the comma, so the statement returns the
  pair \<open>(p.key(), (p.value() if p is not None else None))\<close>: \<open>p.key()\<close> is evaluated
  whatever \<open>p\<close> is, and on \<open>None\<close> the attribute lookup raises \<open>AttributeError\<close>.
\<close>

definition opt_key :: "('k, 'v) item bintree \<Rightarrow> pos option \<Rightarrow> error + 'k" where
  "opt_key t p = (case p of None \<Rightarrow> Inl AttributeError | Some q \<Rightarrow> pos_key t q)"

definition tm_find_ge ::
  "('k::linorder, 'v) item bintree \<Rightarrow> 'k \<Rightarrow> error + ('k \<times> 'v option) option" where
  "tm_find_ge t k =
     (if is_empty t then Inr None
      else
        (case find_position t k of
           Inl e \<Rightarrow> Inl e
         | Inr None \<Rightarrow> Inl AttributeError
         | Inr (Some q) \<Rightarrow>
             (case pos_key t q of
                Inl e \<Rightarrow> Inl e
              | Inr kq \<Rightarrow>
                  (case (if kq < k then tm_after t q else Inr (Some q)) of
                     Inl e \<Rightarrow> Inl e
                   | Inr p \<Rightarrow>
                       (case opt_key t p of
                          Inl e \<Rightarrow> Inl e
                        | Inr kp \<Rightarrow>
                            (case p of
                               None \<Rightarrow> Inr (Some (kp, None))
                             | Some q' \<Rightarrow>
                                 (case pos_value t q' of
                                    Inl e \<Rightarrow> Inl e
                                  | Inr v \<Rightarrow> Inr (Some (kp, Some v)))))))))"

definition tm_getitem :: "('k::linorder, 'v) item bintree \<Rightarrow> 'k \<Rightarrow> error + 'v" where
  "tm_getitem t k =
     (if is_empty t then Inl KeyError
      else
        (case root t of
           None \<Rightarrow> Inl ValueError
         | Some r \<Rightarrow>
             (case subtree_search t r k of
                Inl e \<Rightarrow> Inl e
              | Inr p \<Rightarrow>
                  (case pos_key t p of
                     Inl e \<Rightarrow> Inl e
                   | Inr kp \<Rightarrow> if k \<noteq> kp then Inl KeyError else pos_value t p))))"

definition set_value :: "('k, 'v) item bintree \<Rightarrow> pos \<Rightarrow> 'v \<Rightarrow> error + ('k, 'v) item bintree" where
  \<comment> \<open>\<open>p.element().value = v\<close>: the Entry object held by the node is updated in place.\<close>
  "set_value t p v =
     (case element t p of
        Inl e \<Rightarrow> Inl e
      | Inr it \<Rightarrow> replace t p (it\<lparr>val := v\<rparr>))"

definition tm_setitem ::
  "('k::linorder, 'v) item bintree \<Rightarrow> 'k \<Rightarrow> 'v \<Rightarrow> error + ('k, 'v) item bintree" where
  "tm_setitem t k v =
     (if is_empty t then add_root t (Item k v)
      else
        (case root t of
           None \<Rightarrow> Inl ValueError
         | Some r \<Rightarrow>
             (case subtree_search t r k of
                Inl e \<Rightarrow> Inl e
              | Inr p \<Rightarrow>
                  (case pos_key t p of
                     Inl e \<Rightarrow> Inl e
                   | Inr kp \<Rightarrow>
                       if kp = k then set_value t p v
                       else if kp < k then add_right t p (Item k v)
                       else add_left t p (Item k v)))))"

definition tm_delete :: "'a bintree \<Rightarrow> pos \<Rightarrow> error + 'a bintree" where
  "tm_delete t p =
     (case pos2node t p of
        Inl e \<Rightarrow> Inl e
      | Inr _ \<Rightarrow>
          (case left t p of
             None \<Rightarrow> tree_delete t p
           | Some lp \<Rightarrow>
               (case right t p of
                  None \<Rightarrow> tree_delete t p
                | Some rp \<Rightarrow>
                    (let replacement = subtree_last_position t lp in
                     case element t replacement of
                       Inl e \<Rightarrow> Inl e
                     | Inr el \<Rightarrow>
                         (case replace t p el of
                            Inl e \<Rightarrow> Inl e
                          | Inr t' \<Rightarrow> tree_delete t' replacement)))))"

definition tm_delitem ::
  "('k::linorder, 'v) item bintree \<Rightarrow> 'k \<Rightarrow> error + ('k, 'v) item bintree" where
  "tm_delitem t k =
     (if \<not> is_empty t then
        (case root t of
           None \<Rightarrow> Inl ValueError
         | Some r \<Rightarrow>
             (case subtree_search t r k of
                Inl e \<Rightarrow> Inl e
              | Inr p \<Rightarrow>
                  (case pos_key t p of
                     Inl e \<Rightarrow> Inl e
                   | Inr kp \<Rightarrow> if k = kp then tm_delete t p else Inl KeyError)))
      else Inl KeyError)"

text \<open>
  States reachable from the empty tree by successful \<open>set\<close>, \<open>del\<close> and positional
  \<open>delete\<close> calls.
\<close>

inductive tm_reachable :: "('k::linorder, 'v) item bintree \<Rightarrow> bool" where
  tm_init: "tm_reachable Leaf"
| tm_set: "tm_reachable t \<Longrightarrow> tm_setitem t k v = Inr t' \<Longrightarrow> tm_reachable t'"
| tm_del: "tm_reachable t \<Longrightarrow> tm_delitem t k = Inr t' \<Longrightarrow> tm_reachable t'"
| tm_delpos: "tm_reachable t \<Longrightarrow> tm_delete t p = Inr t' \<Longrightarrow> tm_reachable t'"

definition has_stop :: "('k, 'v) slot list \<Rightarrow> 'k \<Rightarrow> bool" where
  "has_stop T k = (\<exists>i<length T. T ! i = EmptySlot \<or> (\<exists>it. T ! i = Entry it \<and> key it = k))"

text \<open>
  A map that inserts and then deletes, one after the other, keys whose home slots
  cover the whole table; used to exhibit a reachable table without any empty slot.
\<close>

definition churn_step ::
  "('k \<Rightarrow> int) \<Rightarrow> ('k, 'v) probemap \<Rightarrow> 'k \<Rightarrow> 'v \<Rightarrow> (error + ('k, 'v) probemap) option" where
  "churn_step H s k v =
     (case phm_setitem 1 H s k v of
        Some (Inr s1) \<Rightarrow> phm_delitem H s1 k
      | r \<Rightarrow> r)"

fun churn ::
  "('k \<Rightarrow> int) \<Rightarrow> ('k, 'v) probemap \<Rightarrow> 'k list \<Rightarrow> 'v \<Rightarrow> (error + ('k, 'v) probemap) option" where
  "churn H s [] v = Some (Inr s)"
| "churn H s (k # ks) v =
     (case churn_step H s k v of
        Some (Inr s') \<Rightarrow> churn H s' ks v
      | r \<Rightarrow> r)"

definition all_tombstones :: "(int, int) probemap" where
  "all_tombstones = \<lparr>table = replicate 11 Avail, n = 0, prime = 109345121, scale = 1, shift = 0\<rparr>"

definition pairs :: "('k, 'v) item list \<Rightarrow> ('k \<times> 'v) list" where
  "pairs T = map (\<lambda>it. (key it, val it)) T"

definition strict_sorted_keys :: "('k::linorder, 'v) item list \<Rightarrow> bool" where
  "strict_sorted_keys T = sorted_wrt (<) (map key T)"

definition in_range :: "'k::linorder option \<Rightarrow> 'k option \<Rightarrow> 'k \<Rightarrow> bool" where
  "in_range start stop k =
     ((case start of None \<Rightarrow> True | Some s \<Rightarrow> s \<le> k) \<and>
      (case stop of None \<Rightarrow> True | Some s \<Rightarrow> k < s))"

subsection \<open>In-order positions and termination of the traversal loops\<close>

text \<open>
  Structural view of positions, used to establish that the loops of \<open>TreeMap\<close> terminate:
  the in-order list of the positions of a tree, and the successor of a position in it.
\<close>

fun first_rel :: "'a bintree \<Rightarrow> pos" where
  "first_rel Leaf = []"
| "first_rel (Node l e r) = (if l = Leaf then [] else L # first_rel l)"

fun last_rel :: "'a bintree \<Rightarrow> pos" where
  "last_rel Leaf = []"
| "last_rel (Node l e r) = (if r = Leaf then [] else R # last_rel r)"

lemma first_position_rel: "subtree_first_position t p = p @ first_rel (subtree t p)"
proof (induction t p rule: subtree_first_position.induct)
  case (1 t walk)
  show ?case
  proof (cases "subtree t walk")
    case Leaf
    then show ?thesis
      by (subst subtree_first_position.simps) (simp add: left_def subtree_append)
  next
    case (Node l e r)
    show ?thesis
    proof (cases "l = Leaf")
      case True
      with Node show ?thesis
        by (subst subtree_first_position.simps) (simp add: left_def subtree_append)
    next
      case False
      with Node have lf: "left t walk = Some (walk @ [L])"
        by (simp add: left_def subtree_append)
      from 1 [OF lf] Node False lf show ?thesis
        by (subst subtree_first_position.simps) (simp add: subtree_append)
    qed
  qed
qed

lemma last_position_rel: "subtree_last_position t p = p @ last_rel (subtree t p)"
proof (induction t p rule: subtree_last_position.induct)
  case (1 t walk)
  show ?case
  proof (cases "subtree t walk")
    case Leaf
    then show ?thesis
      by (subst subtree_last_position.simps) (simp add: right_def subtree_append)
  next
    case (Node l e r)
    show ?thesis
    proof (cases "r = Leaf")
      case True
      with Node show ?thesis
        by (subst subtree_last_position.simps) (simp add: right_def subtree_append)
    next
      case False
      with Node have lf: "right t walk = Some (walk @ [R])"
        by (simp add: right_def subtree_append)
      from 1 [OF lf] Node False lf show ?thesis
        by (subst subtree_last_position.simps) (simp add: subtree_append)
    qed
  qed
qed

definition climbR :: "pos \<Rightarrow> pos option" where
  "climbR p = (case dropWhile (\<lambda>d. d = R) (rev p) of [] \<Rightarrow> None | d # q \<Rightarrow> Some (rev q))"

lemma subtree_butlast_valid: "subtree t p \<noteq> Leaf \<Longrightarrow> subtree t (butlast p) \<noteq> Leaf"
proof (cases p rule: rev_cases)
  case Nil then show "subtree t p \<noteq> Leaf \<Longrightarrow> ?thesis" by simp
next
  case (snoc q d)
  assume "subtree t p \<noteq> Leaf"
  with snoc show ?thesis by (auto simp: subtree_append)
qed

lemma after_climb_closed:
  "subtree t walk \<noteq> Leaf \<Longrightarrow> after_climb t walk (parent t walk) = climbR walk"
proof (induction walk rule: rev_induct)
  case Nil
  then show ?case by (simp add: parent_def climbR_def after_climb.simps)
next
  case (snoc d q)
  then have vq: "subtree t q \<noteq> Leaf" using subtree_butlast_valid [of t "q @ [d]"] by simp
  show ?case
  proof (cases d)
    case L
    then show ?thesis
      by (subst after_climb.simps) (simp add: parent_def climbR_def right_def)
  next
    case R
    with snoc vq show ?thesis
      by (subst after_climb.simps) (simp add: parent_def climbR_def right_def)
  qed
qed
fun inpos :: "'a bintree \<Rightarrow> pos list" where
  "inpos Leaf = []"
| "inpos (Node l e r) = map ((#) L) (inpos l) @ [[]] @ map ((#) R) (inpos r)"

fun succ :: "'a bintree \<Rightarrow> pos \<Rightarrow> pos option" where
  "succ Leaf p = None"
| "succ (Node l e r) [] = (if r = Leaf then None else Some (R # first_rel r))"
| "succ (Node l e r) (L # p) = (case succ l p of Some q \<Rightarrow> Some (L # q) | None \<Rightarrow> Some [])"
| "succ (Node l e r) (R # p) = map_option ((#) R) (succ r p)"

lemma climbR_Nil [simp]: "climbR [] = None"
  by (simp add: climbR_def)

lemma dropWhile_snoc:
  "dropWhile P (xs @ [y]) =
     (if \<forall>x\<in>set xs. P x then dropWhile P [y] else dropWhile P xs @ [y])"
  by (induction xs) auto

lemma climbR_L: "climbR (L # p) = (case climbR p of None \<Rightarrow> Some [] | Some q \<Rightarrow> Some (L # q))"
proof (cases "\<forall>d\<in>set (rev p). d = R")
  case True
  then have dw: "dropWhile (\<lambda>d. d = R) (rev p) = []" by simp
  from True show ?thesis by (simp add: climbR_def dropWhile_snoc dw)
next
  case False
  then obtain d q where dq: "dropWhile (\<lambda>d. d = R) (rev p) = d # q"
    by (cases "dropWhile (\<lambda>d. d = R) (rev p)") (auto simp: dropWhile_eq_Nil_conv)
  from False show ?thesis by (simp add: climbR_def dropWhile_snoc dq)
qed

lemma climbR_R: "climbR (R # p) = map_option ((#) R) (climbR p)"
proof (cases "\<forall>d\<in>set (rev p). d = R")
  case True
  then have dw: "dropWhile (\<lambda>d. d = R) (rev p) = []" by simp
  from True show ?thesis by (simp add: climbR_def dropWhile_snoc dw)
next
  case False
  then obtain d q where dq: "dropWhile (\<lambda>d. d = R) (rev p) = d # q"
    by (cases "dropWhile (\<lambda>d. d = R) (rev p)") (auto simp: dropWhile_eq_Nil_conv)
  from False show ?thesis by (simp add: climbR_def dropWhile_snoc dq)
qed

lemma tm_after_closed:
  assumes "subtree t p \<noteq> Leaf"
  shows "tm_after t p =
         Inr (if subtree t (p @ [R]) = Leaf then climbR p
              else Some (p @ R # first_rel (subtree t (p @ [R]))))"
  using assms
  by (simp add: tm_after_def pos2node_def right_def first_position_rel after_climb_closed)

lemma tm_after_succ: "subtree t p \<noteq> Leaf \<Longrightarrow> tm_after t p = Inr (succ t p)"
proof (induction t p rule: succ.induct)
  case (1 p)
  then show ?case by simp
next
  case (2 l e r)
  then show ?case by (simp add: tm_after_closed)
next
  case (3 l e r p)
  from 3 have v: "subtree l p \<noteq> Leaf" by simp
  from "3.IH" [OF v] tm_after_closed [OF v]
  have s: "succ l p = (if subtree l (p @ [R]) = Leaf then climbR p
              else Some (p @ R # first_rel (subtree l (p @ [R]))))"
    by simp
  from v show ?case
    by (simp add: tm_after_closed climbR_L s)
next
  case (4 l e r p)
  from 4 have v: "subtree r p \<noteq> Leaf" by simp
  from "4.IH" [OF v] tm_after_closed [OF v]
  have s: "succ r p = (if subtree r (p @ [R]) = Leaf then climbR p
              else Some (p @ R # first_rel (subtree r (p @ [R]))))"
    by simp
  from v show ?case
    by (simp add: tm_after_closed climbR_R s)
qed


lemma inpos_valid: "p \<in> set (inpos t) \<longleftrightarrow> subtree t p \<noteq> Leaf"
proof (induction t arbitrary: p)
  case Leaf
  then show ?case by simp
next
  case (Node l e r)
  show ?case
  proof (cases p)
    case Nil
    then show ?thesis by simp
  next
    case (Cons d q)
    with Node show ?thesis by (cases d) auto
  qed
qed

lemma inpos_distinct: "distinct (inpos t)"
  by (induction t) (auto simp: distinct_map inj_on_def)

lemma inpos_first: "t \<noteq> Leaf \<Longrightarrow> \<exists>zs. inpos t = first_rel t # zs"
proof (induction t)
  case Leaf
  then show ?case by simp
next
  case (Node l e r)
  show ?case
  proof (cases "l = Leaf")
    case True
    then show ?thesis by simp
  next
    case False
    with Node.IH(1) obtain zs where "inpos l = first_rel l # zs" by blast
    with False show ?thesis by simp
  qed
qed

definition next_of :: "pos list \<Rightarrow> pos option" where
  "next_of ys = (case ys of [] \<Rightarrow> None | q # _ \<Rightarrow> Some q)"

lemma inpos_succ:
  "subtree t p \<noteq> Leaf \<Longrightarrow> \<exists>xs ys. inpos t = xs @ p # ys \<and> succ t p = next_of ys"
proof (induction t p rule: succ.induct)
  case (1 p)
  then show ?case by simp
next
  case (2 l e r)
  show ?case
  proof (cases "r = Leaf")
    case True
    have "inpos (Node l e r) = map ((#) L) (inpos l) @ [] # []" using True by simp
    moreover have "succ (Node l e r) [] = next_of []" using True by (simp add: next_of_def)
    ultimately show ?thesis by blast
  next
    case False
    from inpos_first [OF False] obtain zs where zs: "inpos r = first_rel r # zs" by blast
    have "inpos (Node l e r) = map ((#) L) (inpos l) @ [] # (R # first_rel r) # map ((#) R) zs"
      using zs by simp
    moreover have "succ (Node l e r) [] = next_of ((R # first_rel r) # map ((#) R) zs)"
      using False by (simp add: next_of_def)
    ultimately show ?thesis by blast
  qed
next
  case (3 l e r p)
  then have "subtree l p \<noteq> Leaf" by simp
  from "3.IH" [OF this] obtain xs ys where
    xy: "inpos l = xs @ p # ys" "succ l p = next_of ys" by blast
  have "inpos (Node l e r) =
      map ((#) L) xs @ (L # p) # (map ((#) L) ys @ [] # map ((#) R) (inpos r))"
    using xy(1) by simp
  moreover have "succ (Node l e r) (L # p) =
      next_of (map ((#) L) ys @ [] # map ((#) R) (inpos r))"
    using xy(2) by (cases ys) (simp_all add: next_of_def)
  ultimately show ?case by blast
next
  case (4 l e r p)
  then have "subtree r p \<noteq> Leaf" by simp
  from "4.IH" [OF this] obtain xs ys where
    xy: "inpos r = xs @ p # ys" "succ r p = next_of ys" by blast
  have "inpos (Node l e r) =
      (map ((#) L) (inpos l) @ [] # map ((#) R) xs) @ (R # p) # map ((#) R) ys"
    using xy(1) by simp
  moreover have "succ (Node l e r) (R # p) = next_of (map ((#) R) ys)"
    using xy(2) by (cases ys) (simp_all add: next_of_def)
  ultimately show ?case by blast
qed

definition rest :: "'a bintree \<Rightarrow> pos \<Rightarrow> pos list" where
  "rest t p = dropWhile (\<lambda>q. q \<noteq> p) (inpos t)"

lemma rest_split:
  assumes "inpos t = xs @ p # ys"
  shows "rest t p = p # ys"
proof -
  from inpos_distinct [of t] assms have "p \<notin> set xs" by auto
  then have "dropWhile (\<lambda>q. q \<noteq> p) (xs @ p # ys) = p # ys"
    by (auto simp: dropWhile_append3)
  with assms show ?thesis by (simp add: rest_def)
qed

lemma rest_step:
  assumes "subtree t p \<noteq> Leaf"
  shows "rest t p = p # (case succ t p of None \<Rightarrow> [] | Some q \<Rightarrow> rest t q)"
proof -
  from inpos_succ [OF assms] obtain xs ys where
    xy: "inpos t = xs @ p # ys" "succ t p = next_of ys" by blast
  show ?thesis
  proof (cases ys)
    case Nil
    with xy rest_split [OF xy(1)] show ?thesis by (simp add: next_of_def)
  next
    case (Cons q zs)
    with xy(1) have "inpos t = (xs @ [p]) @ q # zs" by simp
    from rest_split [OF this] rest_split [OF xy(1)] xy(2) Cons show ?thesis
      by (simp add: next_of_def)
  qed
qed

lemma tm_after_measure:
  assumes "tm_after t q = Inr p'" and "subtree t q \<noteq> Leaf"
  shows "(case p' of None \<Rightarrow> 0 | Some q' \<Rightarrow> length (rest t q')) < length (rest t q)"
  using assms rest_step [OF assms(2)] by (auto simp: tm_after_succ split: option.splits)

lemma pos_key_valid: "pos_key t q = Inr k \<Longrightarrow> subtree t q \<noteq> Leaf"
  by (auto simp: pos_key_def element_def split: bintree.splits)

function tm_iter_loop :: "('k, 'v) item bintree \<Rightarrow> pos option \<Rightarrow> error + 'k list" where
  "tm_iter_loop t p =
     (case p of
        None \<Rightarrow> Inr []
      | Some q \<Rightarrow>
          (case pos_key t q of
             Inl e \<Rightarrow> Inl e
           | Inr k \<Rightarrow>
               (case tm_after t q of
                  Inl e \<Rightarrow> Inl e
                | Inr p' \<Rightarrow>
                    (case tm_iter_loop t p' of
                       Inl e \<Rightarrow> Inl e
                     | Inr ks \<Rightarrow> Inr (k # ks)))))"
  by pat_completeness auto
termination
  by (relation "measure (\<lambda>(t, p). case p of None \<Rightarrow> 0 | Some q \<Rightarrow> length (rest t q))")
     (auto dest!: pos_key_valid intro: tm_after_measure)

declare tm_iter_loop.simps [simp del]

definition tm_iter :: "('k, 'v) item bintree \<Rightarrow> error + 'k list" where
  "tm_iter t = tm_iter_loop t (first t)"

function tm_range_loop ::
  "('k::linorder, 'v) item bintree \<Rightarrow> 'k option \<Rightarrow> pos option \<Rightarrow> error + ('k \<times> 'v) list" where
  "tm_range_loop t stop p =
     (case p of
        None \<Rightarrow> Inr []
      | Some q \<Rightarrow>
          (case pos_key t q of
             Inl e \<Rightarrow> Inl e
           | Inr k \<Rightarrow>
               if stop = None \<or> k < the stop then
                 (case pos_value t q of
                    Inl e \<Rightarrow> Inl e
                  | Inr v \<Rightarrow>
                      (case tm_after t q of
                         Inl e \<Rightarrow> Inl e
                       | Inr p' \<Rightarrow>
                           (case tm_range_loop t stop p' of
                              Inl e \<Rightarrow> Inl e
                            | Inr kvs \<Rightarrow> Inr ((k, v) # kvs))))
               else Inr []))"
  by pat_completeness auto
termination
  by (relation "measure (\<lambda>(t, stop, p). case p of None \<Rightarrow> 0 | Some q \<Rightarrow> length (rest t q))")
     (auto dest!: pos_key_valid intro: tm_after_measure)

declare tm_range_loop.simps [simp del]

definition tm_find_range ::
  "('k::linorder, 'v) item bintree \<Rightarrow> 'k option \<Rightarrow> 'k option \<Rightarrow> error + ('k \<times> 'v) list" where
  "tm_find_range t start stop =
     (if \<not> is_empty t then
        (case (case start of
                 None \<Rightarrow> Inr (first t)
               | Some s \<Rightarrow>
                   (case find_position t s of
                      Inl e \<Rightarrow> Inl e
                    | Inr None \<Rightarrow> Inl AttributeError
                    | Inr (Some q) \<Rightarrow>
                        (case pos_key t q of
                           Inl e \<Rightarrow> Inl e
                         | Inr kq \<Rightarrow> if kq < s then tm_after t q else Inr (Some q)))) of
           Inl e \<Rightarrow> Inl e
         | Inr p \<Rightarrow> tm_range_loop t stop p)
      else Inr [])"

fun inorder :: "'a bintree \<Rightarrow> 'a list" where
  "inorder Leaf = []"
| "inorder (Node l e r) = inorder l @ [e] @ inorder r"

text \<open>
  The BST property of the specification: at every node, all keys of the left subtree are
  smaller and all keys of the right subtree are greater than the key of the node.
\<close>

fun bst :: "('k::linorder, 'v) item bintree \<Rightarrow> bool" where
  "bst Leaf = True"
| "bst (Node l e r) =
     (bst l \<and> bst r \<and> (\<forall>x\<in>set_bintree l. key x < key e) \<and> (\<forall>x\<in>set_bintree r. key e < key x))"

fun search_rel :: "('k::linorder, 'v) item bintree \<Rightarrow> 'k \<Rightarrow> pos" where
  "search_rel Leaf k = []"
| "search_rel (Node l e r) k =
     (if k = key e then []
      else if k < key e then (if l = Leaf then [] else L # search_rel l k)
      else (if r = Leaf then [] else R # search_rel r k))"

fun bst_lookup :: "('k::linorder, 'v) item bintree \<Rightarrow> 'k \<Rightarrow> error + 'v" where
  "bst_lookup Leaf k = Inl KeyError"
| "bst_lookup (Node l e r) k =
     (if k = key e then Inr (val e)
      else if k < key e then bst_lookup l k
      else bst_lookup r k)"

fun bst_insert :: "'k::linorder \<Rightarrow> 'v \<Rightarrow> ('k, 'v) item bintree \<Rightarrow> ('k, 'v) item bintree" where
  "bst_insert k v Leaf = Node Leaf (Item k v) Leaf"
| "bst_insert k v (Node l e r) =
     (if k = key e then Node l (e\<lparr>val := v\<rparr>) r
      else if k < key e then Node (bst_insert k v l) e r
      else Node l e (bst_insert k v r))"

fun last_item :: "'a \<Rightarrow> 'a bintree \<Rightarrow> 'a" where
  "last_item d Leaf = d"
| "last_item d (Node l e r) = last_item e r"

fun del_last :: "'a bintree \<Rightarrow> 'a bintree" where
  "del_last Leaf = Leaf"
| "del_last (Node l e r) = (if r = Leaf then l else Node l e (del_last r))"

fun del_root :: "'a bintree \<Rightarrow> 'a bintree" where
  "del_root Leaf = Leaf"
| "del_root (Node l e r) =
     (if l \<noteq> Leaf \<and> r \<noteq> Leaf then Node (del_last l) (last_item e l) r
      else if r = Leaf then l else r)"

definition rest_opt :: "'a bintree \<Rightarrow> pos option \<Rightarrow> pos list" where
  "rest_opt t p = (case p of None \<Rightarrow> [] | Some q \<Rightarrow> rest t q)"

section \<open>SortedTableMap: boundary queries\<close>

lemma stm_reachable_single: "stm_reachable [Item k v]"
proof -
  have "stm_setitem [] k v = [Item k v]"
    by (simp add: stm_setitem_def find_index.simps)
  with stm_set [OF stm_init, of k v] show ?thesis by simp
qed

text \<open>
  C6. \<open>find_gt(k)\<close> is claimed to return the pair with the smallest key strictly greater
  than \<open>k\<close>. On the reachable one-entry map \<open>{1: 7}\<close> the call \<open>find_gt(0)\<close> compares
  an \<open>_Item\<close> with the bare key \<open>0\<close> and raises \<open>AttributeError\<close> instead of returning
  \<open>(1, 7)\<close>.
\<close>

theorem stm_find_gt_raises:
  "stm_reachable [Item (1::int) (7::int)] \<and>
   stm_find_gt [Item (1::int) (7::int)] 0 = Inl AttributeError"
  using stm_reachable_single [of "1::int" "7::int"]
  by (simp add: stm_find_gt_def find_index.simps Item_def item_eq_def getattr_key_def)

text \<open>
  C8. \<open>find_le(k)\<close> is claimed to return the pair for \<open>k\<close> itself whenever \<open>k\<close> is
  present. On the reachable one-entry map \<open>{1: 7}\<close> the call \<open>find_le(1)\<close> finds index
  \<open>0\<close>, fails the test \<open>j > 0\<close> and returns \<open>None\<close>, although key \<open>1\<close> is present
  (\<open>get(1)\<close> returns \<open>7\<close>).
\<close>

theorem stm_find_le_min_none:
  "stm_reachable [Item (1::int) (7::int)] \<and>
   stm_getitem [Item (1::int) (7::int)] 1 = Inr 7 \<and>
   stm_find_le [Item (1::int) (7::int)] 1 = None"
  using stm_reachable_single [of "1::int" "7::int"]
  by (simp add: stm_find_le_def stm_getitem_def find_index.simps Item_def)

section \<open>TreeMap: boundary queries\<close>

lemma tm_reachable_single: "tm_reachable (Node Leaf (Item k v) Leaf)"
proof -
  have "tm_setitem Leaf k v = Inr (Node Leaf (Item k v) Leaf)"
    by (simp add: tm_setitem_def is_empty_def add_root_def)
  then show ?thesis by (rule tm_set [OF tm_init])
qed

text \<open>
  C7. \<open>find_ge(k)\<close> is claimed never to raise and to report absence as \<open>None\<close> when
  every key is smaller than \<open>k\<close>. On the reachable one-entry map \<open>{1: 7}\<close> the call
  \<open>find_ge(2)\<close> moves \<open>p\<close> to \<open>after(p) = None\<close> and then evaluates \<open>p.key()\<close>, which
  raises \<open>AttributeError\<close>.
\<close>

theorem tm_find_ge_raises:
  "tm_reachable (Node Leaf (Item (1::int) (7::int)) Leaf) \<and>
   tm_find_ge (Node Leaf (Item (1::int) (7::int)) Leaf) 2 = Inl AttributeError"
proof -
  let ?t = "Node Leaf (Item (1::int) (7::int)) Leaf"
  have s: "subtree_search ?t [] 2 = Inr []"
    by (subst subtree_search.simps)
       (simp add: pos_key_def element_def left_def right_def)
  have a: "tm_after ?t [] = Inr None"
    by (simp add: tm_after_def pos2node_def right_def parent_def after_climb.simps)
  have "tm_find_ge ?t 2 = Inl AttributeError"
    by (simp add: tm_find_ge_def is_empty_def find_position_def root_def s a opt_key_def
        pos_key_def element_def)
  with tm_reachable_single [of "1::int" "7::int"] show ?thesis by simp
qed

section \<open>ProbeHashMap: termination of the probe loop\<close>

lemma find_slot_returns_stop_aux:
  assumes "find_slot T j k fa = Some r"
  shows "j < length T \<longrightarrow> has_stop T k"
proof (rule find_slot.raw_induct
    [where P = "\<lambda>T j k fa r. j < length T \<longrightarrow> has_stop T k", OF _ assms])
  fix f :: "('a, 'b) slot list \<Rightarrow> nat \<Rightarrow> 'a \<Rightarrow> nat option \<Rightarrow> (bool \<times> nat) option"
  fix T j k first_avail r
  assume IH: "\<And>T j k fa y. f T j k fa = Some y \<Longrightarrow> j < length T \<longrightarrow> has_stop T k"
  assume hyp: "(case T ! j of
        Entry it \<Rightarrow>
          if k = key it then Some (True, j)
          else f T ((j + 1) mod length T) k first_avail
      | _ \<Rightarrow>
          (let fa = (case first_avail of None \<Rightarrow> j | Some a \<Rightarrow> a) in
           if T ! j = EmptySlot then Some (False, fa)
           else f T ((j + 1) mod length T) k (Some fa))) = Some r"
  show "j < length T \<longrightarrow> has_stop T k"
  proof
    assume jl: "j < length T"
    then have "0 < length T" by arith
    then have nxt: "(j + 1) mod length T < length T" by (rule mod_less_divisor)
    show "has_stop T k"
    proof (cases "T ! j")
      case EmptySlot
      with jl show ?thesis unfolding has_stop_def by blast
    next
      case Avail
      with hyp have "f T ((j + 1) mod length T) k
          (Some (case first_avail of None \<Rightarrow> j | Some a \<Rightarrow> a)) = Some r"
        by (simp add: Let_def)
      from IH [OF this] nxt show ?thesis by blast
    next
      case (Entry it)
      show ?thesis
      proof (cases "k = key it")
        case True
        with Entry jl show ?thesis unfolding has_stop_def by blast
      next
        case False
        with Entry hyp have "f T ((j + 1) mod length T) k first_avail = Some r"
          by simp
        from IH [OF this] nxt show ?thesis by blast
      qed
    qed
  qed
qed

lemma find_slot_returns_stop:
  assumes "find_slot T j k fa = Some r" and "j < length T"
  shows "\<exists>i<length T. T ! i = EmptySlot \<or> (\<exists>it. T ! i = Entry it \<and> key it = k)"
  using find_slot_returns_stop_aux [OF assms(1)] assms(2) by (simp add: has_stop_def)

lemma find_slot_diverges:
  assumes "\<forall>i<length T. T ! i \<noteq> EmptySlot \<and> (\<forall>it. T ! i = Entry it \<longrightarrow> key it \<noteq> k)"
    and "j < length T"
  shows "find_slot T j k fa = None"
proof (cases "find_slot T j k fa")
  case None
  then show ?thesis .
next
  case (Some r)
  from find_slot_returns_stop [OF Some assms(2)] assms(1) show ?thesis by blast
qed

lemma churn_step_reachable:
  "phm_reachable H s \<Longrightarrow> churn_step H s k v = Some (Inr s') \<Longrightarrow> phm_reachable H s'"
  by (auto simp: churn_step_def split: option.splits sum.splits
      intro: phm_set phm_del)

lemma churn_reachable:
  "phm_reachable H s \<Longrightarrow> churn H s ks v = Some (Inr s') \<Longrightarrow> phm_reachable H s'"
proof (induction ks arbitrary: s)
  case Nil
  then show ?case by simp
next
  case (Cons k ks)
  then show ?case
    by (auto split: option.splits sum.splits dest: churn_step_reachable)
qed

lemma churn_all_tombstones:
  "churn (\<lambda>k. k) (hm_init EmptySlot 11 109345121 1 0) [0,1,2,3,4,5,6,7,8,9,10] 0
   = Some (Inr all_tombstones)"
  by code_simp

lemma all_tombstones_reachable: "phm_reachable (\<lambda>k. k) all_tombstones"
proof -
  have "phm_reachable (\<lambda>k::int. k) (hm_init EmptySlot 11 109345121 1 0 :: (int, int) probemap)"
    by (rule phm_init) simp_all
  from churn_reachable [OF this churn_all_tombstones] show ?thesis .
qed

lemma all_tombstones_find_slot: "find_slot (table all_tombstones) 0 k None = None"
  by (rule find_slot_diverges) (simp_all add: all_tombstones_def)

text \<open>
  C4. Every \<open>get\<close>, \<open>set\<close> and \<open>delete\<close> of \<open>ProbeHashMap\<close> is claimed to terminate on
  every reachable state. Starting from a fresh map with the default capacity 11 and prime
  109345121 (scale 1, shift 0, integer keys hashing to themselves), inserting and deleting
  each of the keys 0..10 in turn leaves all eleven slots marked \<open>_AVAIL\<close> while \<open>n\<close> is 0,
  so no resize is ever triggered. In that reachable state the probe loop of \<open>_find_slot\<close>
  meets neither the key nor an empty slot: \<open>get(0)\<close>, \<open>set(0, v)\<close> and \<open>delete(0)\<close> do not
  return (value \<open>None\<close> of the model).
\<close>

theorem phm_probe_loops_forever:
  "phm_reachable (\<lambda>k. k) all_tombstones \<and>
   phm_getitem (\<lambda>k. k) all_tombstones 0 = None \<and>
   (\<forall>depth v. phm_setitem depth (\<lambda>k. k) all_tombstones 0 v = None) \<and>
   phm_delitem (\<lambda>k. k) all_tombstones 0 = None"
proof -
  have h: "hash_function (\<lambda>k. k) all_tombstones 0 = Inr 0"
    by (simp add: hash_function_def all_tombstones_def)
  have g: "phm_getitem (\<lambda>k. k) all_tombstones 0 = None"
    by (simp add: phm_getitem_def hm_getitem_def h phm_bucket_getitem_def
        all_tombstones_find_slot)
  have d: "phm_delitem (\<lambda>k. k) all_tombstones 0 = None"
    by (simp add: phm_delitem_def hm_delitem_def h phm_bucket_delitem_def
        all_tombstones_find_slot)
  have s: "phm_setitem depth (\<lambda>k. k) all_tombstones 0 v = None" for depth v
    by (cases depth)
       (simp_all add: phm_setitem_def h phm_bucket_setitem_def all_tombstones_find_slot)
  from all_tombstones_reachable g d s show ?thesis by simp
qed

section \<open>UnsortedListMap: lookup, update and removal\<close>

lemma pairs_simps [simp]:
  "pairs [] = []" "pairs (it # T) = (key it, val it) # pairs T"
  "pairs (xs @ ys) = pairs xs @ pairs ys"
  by (simp_all add: pairs_def)

lemma map_fst_pairs [simp]: "map fst (pairs T) = map key T"
  by (simp add: pairs_def comp_def)

lemma fst_set_pairs [simp]: "fst ` set (pairs T) = key ` set T"
  by (simp add: pairs_def image_image)

lemma ulm_getitem_map_of:
  "ulm_getitem T k = (case map_of (pairs T) k of None \<Rightarrow> Inl KeyError | Some v \<Rightarrow> Inr v)"
  by (induction T) auto

lemma ulm_getitem_Inr_iff:
  "(\<exists>v. ulm_getitem T k = Inr v) \<longleftrightarrow> k \<in> set (map key T)"
  by (induction T) auto

lemma ulm_setitem_keys:
  "map key (ulm_setitem T k v) = (if k \<in> set (map key T) then map key T else map key T @ [k])"
  by (induction T) auto

lemma ulm_setitem_map_of:
  "map_of (pairs (ulm_setitem T k v)) = (map_of (pairs T))(k \<mapsto> v)"
  by (induction T) (auto simp: fun_eq_iff)

lemma ulm_setitem_distinct:
  "distinct (map key T) \<Longrightarrow> distinct (map key (ulm_setitem T k v))"
  by (simp add: ulm_setitem_keys)

lemma ulm_setitem_get: "ulm_getitem (ulm_setitem T k v) k = Inr v"
  by (simp add: ulm_getitem_map_of ulm_setitem_map_of)

lemma ulm_delitem_keys:
  "ulm_delitem T k = Inr T' \<Longrightarrow> k \<in> set (map key T) \<and> map key T' = remove1 k (map key T)"
  by (induction T arbitrary: T') (auto split: if_splits sum.splits)

lemma ulm_delitem_Inl: "ulm_delitem T k = Inl e \<Longrightarrow> k \<notin> set (map key T) \<and> e = KeyError"
  by (induction T) (auto split: if_splits sum.splits)

lemma ulm_delitem_map_of:
  "distinct (map key T) \<Longrightarrow> ulm_delitem T k = Inr T'
   \<Longrightarrow> map_of (pairs T') = (map_of (pairs T))(k := None)"
proof (induction T arbitrary: T')
  case Nil
  then show ?case by simp
next
  case (Cons it T)
  show ?case
  proof (cases "k = key it")
    case True
    with Cons.prems have "T' = T" "key it \<notin> set (map key T)" by auto
    then have "map_of (pairs T) (key it) = None"
      by (simp add: map_of_eq_None_iff)
    with True \<open>T' = T\<close> show ?thesis by (auto simp: fun_eq_iff)
  next
    case False
    with Cons.prems obtain T1 where "ulm_delitem T k = Inr T1" "T' = it # T1"
      by (auto split: sum.splits)
    with Cons False show ?thesis by (auto simp: fun_eq_iff)
  qed
qed

lemma ulm_delitem_distinct:
  "distinct (map key T) \<Longrightarrow> ulm_delitem T k = Inr T' \<Longrightarrow> distinct (map key T')"
  by (drule ulm_delitem_keys) simp

lemma ulm_reachable_distinct: "ulm_reachable T \<Longrightarrow> distinct (map key T)"
  by (induction rule: ulm_reachable.induct)
     (simp_all add: ulm_setitem_distinct ulm_delitem_distinct)

section \<open>SortedTableMap: binary search\<close>

lemma strict_sorted_nth:
  "strict_sorted_keys T \<Longrightarrow> i < j \<Longrightarrow> j < length T \<Longrightarrow> key (T ! i) < key (T ! j)"
  by (simp add: strict_sorted_keys_def sorted_wrt_iff_nth_less)

lemma strict_sorted_nth_le:
  "strict_sorted_keys T \<Longrightarrow> i \<le> j \<Longrightarrow> j < length T \<Longrightarrow> key (T ! i) \<le> key (T ! j)"
  using strict_sorted_nth [of T i j] by (cases "i = j") auto

lemma find_index_spec:
  shows "strict_sorted_keys T \<Longrightarrow> 0 \<le> low \<Longrightarrow> high < int (length T) \<Longrightarrow> low \<le> high + 1
    \<Longrightarrow> (\<forall>i. i < nat low \<longrightarrow> key (T ! i) < k)
    \<Longrightarrow> (\<forall>i. nat (high + 1) \<le> i \<and> i < length T \<longrightarrow> k < key (T ! i))
    \<Longrightarrow> low \<le> find_index T k low high \<and> find_index T k low high \<le> high + 1 \<and>
        (\<forall>i. i < nat (find_index T k low high) \<longrightarrow> key (T ! i) < k) \<and>
        (\<forall>i. nat (find_index T k low high) \<le> i \<and> i < length T \<longrightarrow> k \<le> key (T ! i))"
proof (induction T k low high rule: find_index.induct)
  case (1 T k low high)
  note sorted = "1.prems"(1)
  show ?case
  proof (cases "high < low")
    case True
    with "1.prems" have "high + 1 = low" by simp
    with True "1.prems" show ?thesis
      by (subst (1 2 3 4) find_index.simps) (auto simp: less_imp_le)
  next
    case False
    define mid where "mid = (low + high) div 2"
    from False have mid_lo: "low \<le> mid" and mid_hi: "mid \<le> high"
      by (simp_all add: mid_def)
    with "1.prems" have mid_len: "nat mid < length T" by simp
    consider (eq) "k = key (T ! nat mid)" | (lt) "k < key (T ! nat mid)"
      | (gt) "key (T ! nat mid) < k"
      by fastforce
    then show ?thesis
    proof cases
      case eq
      have fi: "find_index T k low high = mid"
        using False eq by (subst find_index.simps) (simp add: mid_def Let_def)
      have "\<forall>i. i < nat mid \<longrightarrow> key (T ! i) < k"
        using strict_sorted_nth [OF sorted _ mid_len] eq by simp
      moreover have "\<forall>i. nat mid \<le> i \<and> i < length T \<longrightarrow> k \<le> key (T ! i)"
        using strict_sorted_nth_le [OF sorted, of "nat mid"] eq by simp
      ultimately show ?thesis using fi mid_lo mid_hi by simp
    next
      case lt
      then have ne: "k \<noteq> key (T ! nat mid)" by simp
      have fi: "find_index T k low high = find_index T k low (mid - 1)"
        using False lt ne by (subst find_index.simps) (simp add: mid_def Let_def)
      have hi': "\<forall>i. nat (mid - 1 + 1) \<le> i \<and> i < length T \<longrightarrow> k < key (T ! i)"
      proof (intro allI impI)
        fix i assume "nat (mid - 1 + 1) \<le> i \<and> i < length T"
        then have "nat mid \<le> i" "i < length T" by simp_all
        from strict_sorted_nth_le [OF sorted this] lt show "k < key (T ! i)" by simp
      qed
      have "low \<le> find_index T k low (mid - 1) \<and> find_index T k low (mid - 1) \<le> mid - 1 + 1 \<and>
        (\<forall>i. i < nat (find_index T k low (mid - 1)) \<longrightarrow> key (T ! i) < k) \<and>
        (\<forall>i. nat (find_index T k low (mid - 1)) \<le> i \<and> i < length T \<longrightarrow> k \<le> key (T ! i))"
        using "1.IH"(1) [OF False mid_def ne lt sorted _ _ _ _ hi'] "1.prems" mid_lo mid_hi
        by simp
      with fi mid_hi show ?thesis by simp
    next
      case gt
      then have ne: "k \<noteq> key (T ! nat mid)" and nlt: "\<not> k < key (T ! nat mid)" by simp_all
      have fi: "find_index T k low high = find_index T k (mid + 1) high"
        using False ne nlt by (subst find_index.simps) (simp add: mid_def Let_def)
      have lo': "\<forall>i. i < nat (mid + 1) \<longrightarrow> key (T ! i) < k"
      proof (intro allI impI)
        fix i assume "i < nat (mid + 1)"
        with mid_lo "1.prems" have "i \<le> nat mid" by simp
        from strict_sorted_nth_le [OF sorted this mid_len] gt show "key (T ! i) < k" by simp
      qed
      have "mid + 1 \<le> find_index T k (mid + 1) high \<and> find_index T k (mid + 1) high \<le> high + 1 \<and>
        (\<forall>i. i < nat (find_index T k (mid + 1) high) \<longrightarrow> key (T ! i) < k) \<and>
        (\<forall>i. nat (find_index T k (mid + 1) high) \<le> i \<and> i < length T \<longrightarrow> k \<le> key (T ! i))"
        using "1.IH"(2) [OF False mid_def ne nlt sorted _ _ _ lo'] "1.prems" mid_lo mid_hi
        by simp
      with fi mid_lo show ?thesis by simp
    qed
  qed
qed

lemma find_index_top:
  assumes "strict_sorted_keys T"
  shows "0 \<le> find_index T k 0 (int (length T) - 1)"
    and "find_index T k 0 (int (length T) - 1) \<le> int (length T)"
    and "\<And>i. i < nat (find_index T k 0 (int (length T) - 1)) \<Longrightarrow> key (T ! i) < k"
    and "\<And>i. nat (find_index T k 0 (int (length T) - 1)) \<le> i \<Longrightarrow> i < length T
          \<Longrightarrow> k \<le> key (T ! i)"
proof -
  have "0 \<le> find_index T k 0 (int (length T) - 1) \<and>
      find_index T k 0 (int (length T) - 1) \<le> int (length T) - 1 + 1 \<and>
      (\<forall>i. i < nat (find_index T k 0 (int (length T) - 1)) \<longrightarrow> key (T ! i) < k) \<and>
      (\<forall>i. nat (find_index T k 0 (int (length T) - 1)) \<le> i \<and> i < length T
          \<longrightarrow> k \<le> key (T ! i))"
    by (rule find_index_spec [OF assms]) auto
  then show "0 \<le> find_index T k 0 (int (length T) - 1)"
    and "find_index T k 0 (int (length T) - 1) \<le> int (length T)"
    and "\<And>i. i < nat (find_index T k 0 (int (length T) - 1)) \<Longrightarrow> key (T ! i) < k"
    and "\<And>i. nat (find_index T k 0 (int (length T) - 1)) \<le> i \<Longrightarrow> i < length T
          \<Longrightarrow> k \<le> key (T ! i)"
    by simp_all
qed

lemma strict_sorted_distinct: "strict_sorted_keys T \<Longrightarrow> distinct (map key T)"
  unfolding strict_sorted_keys_def using strict_sorted_iff by blast

lemma find_index_present:
  assumes "strict_sorted_keys T" and "i < length T" and "key (T ! i) = k"
  shows "find_index T k 0 (int (length T) - 1) = int i"
proof -
  let ?j = "find_index T k 0 (int (length T) - 1)"
  note fi = find_index_top [OF assms(1), where k = k]
  have "\<not> i < nat ?j"
    using fi(3) [of i] assms(3) by auto
  moreover have "\<not> nat ?j < i"
  proof
    assume lt: "nat ?j < i"
    with assms(2) have "k \<le> key (T ! nat ?j)" using fi(4) [of "nat ?j"] by simp
    moreover from strict_sorted_nth [OF assms(1) lt assms(2)] assms(3)
    have "key (T ! nat ?j) < k" by simp
    ultimately show False by simp
  qed
  ultimately have "nat ?j = i" by simp
  with fi(1) show ?thesis by simp
qed

lemma find_index_absent:
  assumes "strict_sorted_keys T" and "k \<notin> key ` set T"
  shows "find_index T k 0 (int (length T) - 1) = int (length T) \<or>
         key (T ! nat (find_index T k 0 (int (length T) - 1))) \<noteq> k"
proof -
  let ?j = "find_index T k 0 (int (length T) - 1)"
  note fi = find_index_top [OF assms(1), where k = k]
  show ?thesis
  proof (cases "?j = int (length T)")
    case True
    then show ?thesis by simp
  next
    case False
    with fi(1,2) have "nat ?j < length T" by simp
    then have "key (T ! nat ?j) \<in> key ` set T" by simp
    with assms(2) show ?thesis by auto
  qed
qed

lemma map_of_pairs_nth:
  "distinct (map key T) \<Longrightarrow> i < length T \<Longrightarrow> map_of (pairs T) (key (T ! i)) = Some (val (T ! i))"
proof -
  assume d: "distinct (map key T)" and i: "i < length T"
  from i have "(key (T ! i), val (T ! i)) \<in> set (pairs T)"
    by (auto simp: pairs_def)
  with d show ?thesis by (simp add: map_of_is_SomeI)
qed

lemma stm_getitem_map_of:
  assumes "strict_sorted_keys T"
  shows "stm_getitem T k = (case map_of (pairs T) k of None \<Rightarrow> Inl KeyError | Some v \<Rightarrow> Inr v)"
proof (cases "k \<in> key ` set T")
  case True
  then obtain i where i: "i < length T" "key (T ! i) = k"
    by (auto simp: in_set_conv_nth)
  from find_index_present [OF assms i] i
    map_of_pairs_nth [OF strict_sorted_distinct [OF assms] i(1)]
  show ?thesis by (simp add: stm_getitem_def)
next
  case False
  then have "map_of (pairs T) k = None"
    by (simp add: map_of_eq_None_iff)
  with find_index_absent [OF assms False] show ?thesis
    by (auto simp: stm_getitem_def Let_def)
qed

lemma strict_sorted_insert:
  assumes "strict_sorted_keys T" and "j \<le> length T"
    and "\<And>i. i < j \<Longrightarrow> key (T ! i) < k"
    and "\<And>i. j \<le> i \<Longrightarrow> i < length T \<Longrightarrow> k < key (T ! i)"
  shows "strict_sorted_keys (take j T @ [Item k v] @ drop j T)"
proof -
  from assms(1) have "sorted_wrt (<) (map key (take j T @ drop j T))"
    by (simp add: strict_sorted_keys_def)
  then have a: "sorted_wrt (<) (map key (take j T))" "sorted_wrt (<) (map key (drop j T))"
    and b: "\<forall>x\<in>set (take j T). \<forall>y\<in>set (drop j T). key x < key y"
    by (auto simp: sorted_wrt_append simp del: append_take_drop_id)
  have c: "\<forall>x\<in>set (take j T). key x < k"
    using assms(2,3) by (auto simp: in_set_conv_nth)
  have d: "\<forall>y\<in>set (drop j T). k < key y"
    using assms(2,4) by (auto simp: in_set_conv_nth)
  from a b c d show ?thesis
    by (auto simp: strict_sorted_keys_def sorted_wrt_append)
qed

lemma stm_setitem_cases [consumes 1, case_names update insert]:
  assumes "strict_sorted_keys T"
  obtains (update) i where "i < length T" "key (T ! i) = k"
      "stm_setitem T k v = T[i := (T ! i)\<lparr>val := v\<rparr>]"
  | (insert) j where "j \<le> length T" "k \<notin> key ` set T"
      "\<And>i. i < j \<Longrightarrow> key (T ! i) < k"
      "\<And>i. j \<le> i \<Longrightarrow> i < length T \<Longrightarrow> k < key (T ! i)"
      "stm_setitem T k v = take j T @ [Item k v] @ drop j T"
proof (cases "k \<in> key ` set T")
  case True
  then obtain i where i: "i < length T" "key (T ! i) = k"
    by (auto simp: in_set_conv_nth)
  from find_index_present [OF assms i] i
  have "stm_setitem T k v = T[i := (T ! i)\<lparr>val := v\<rparr>]"
    by (simp add: stm_setitem_def)
  with i show ?thesis by (rule update)
next
  case False
  let ?j = "find_index T k 0 (int (length T) - 1)"
  note fi = find_index_top [OF assms, where k = k]
  from find_index_absent [OF assms False]
  have eq: "stm_setitem T k v = take (nat ?j) T @ [Item k v] @ drop (nat ?j) T"
    by (auto simp: stm_setitem_def Let_def)
  have ge: "k < key (T ! i)" if "nat ?j \<le> i" "i < length T" for i
  proof -
    from that have "key (T ! i) \<in> key ` set T" by simp
    with False have "key (T ! i) \<noteq> k" by auto
    with fi(4) [OF that] show ?thesis by simp
  qed
  show ?thesis
    by (rule insert [of "nat ?j"]) (use fi False ge eq in auto)
qed

lemma stm_setitem_sorted:
  assumes "strict_sorted_keys T"
  shows "strict_sorted_keys (stm_setitem T k v)"
  using assms
proof (cases rule: stm_setitem_cases [where k = k and v = v])
  case (update i)
  have "map key (T[i := (T ! i)\<lparr>val := v\<rparr>]) = map key T"
    using update(1) by (simp add: map_update list_update_same_conv)
  with assms update show ?thesis by (simp add: strict_sorted_keys_def)
next
  case (insert j)
  with strict_sorted_insert [OF assms insert(1,3,4)] show ?thesis by simp
qed

lemma stm_setitem_map_of:
  assumes "strict_sorted_keys T"
  shows "map_of (pairs (stm_setitem T k v)) = (map_of (pairs T))(k \<mapsto> v)"
  using assms
proof (cases rule: stm_setitem_cases [where k = k and v = v])
  case (update i)
  note d = strict_sorted_distinct [OF assms]
  have T: "T = take i T @ T ! i # drop (Suc i) T"
    using update(1) by (simp add: id_take_nth_drop)
  have T': "T[i := (T ! i)\<lparr>val := v\<rparr>] = take i T @ (T ! i)\<lparr>val := v\<rparr> # drop (Suc i) T"
    using update(1) by (simp add: upd_conv_take_nth_drop)
  have notin: "k \<notin> key ` set (take i T)"
  proof
    assume "k \<in> key ` set (take i T)"
    then have "key (T ! i) \<in> set (map key (take i T))" using update(2) by simp
    moreover from d have "distinct (map key (take i T @ T ! i # drop (Suc i) T))"
      using T by simp
    ultimately show False by auto
  qed
  then have none: "map_of (pairs (take i T)) k = None"
    by (simp add: map_of_eq_None_iff)
  have "map_of (pairs T) = map_of (pairs (take i T @ T ! i # drop (Suc i) T))"
    using T by simp
  then show ?thesis
    unfolding update(3) T'
    using none update(2) by (auto simp: fun_eq_iff map_add_def split: option.splits)
next
  case (insert j)
  have none: "map_of (pairs (take j T)) k = None"
    using insert(2) by (auto simp: map_of_eq_None_iff dest: in_set_takeD)
  have "map_of (pairs T) = map_of (pairs (take j T @ drop j T))" by simp
  then have "map_of (pairs T) = map_of (pairs (drop j T)) ++ map_of (pairs (take j T))"
    by (simp del: append_take_drop_id)
  then show ?thesis
    unfolding insert(5) using none
    by (auto simp: fun_eq_iff map_add_def split: option.splits)
qed

lemma stm_delitem_Inr:
  assumes "strict_sorted_keys T" and "stm_delitem T k = Inr T'"
  obtains i where "i < length T" "key (T ! i) = k" "T' = take i T @ drop (Suc i) T"
proof -
  let ?j = "find_index T k 0 (int (length T) - 1)"
  note fi = find_index_top [OF assms(1), where k = k]
  from assms(2) have j: "?j \<noteq> int (length T)" "key (T ! nat ?j) = k"
    and T': "T' = take (nat ?j) T @ drop (Suc (nat ?j)) T"
    by (auto simp: stm_delitem_def Let_def split: if_splits)
  from j(1) fi(1,2) have "nat ?j < length T" by simp
  from this j(2) T' show ?thesis by (rule that)
qed

lemma stm_delitem_sorted:
  assumes "strict_sorted_keys T" and "stm_delitem T k = Inr T'"
  shows "strict_sorted_keys T'"
proof -
  from assms obtain i where i: "i < length T" "T' = take i T @ drop (Suc i) T"
    by (rule stm_delitem_Inr)
  from assms(1) have "sorted_wrt (<) (map key (take i T @ T ! i # drop (Suc i) T))"
    using i(1) by (simp add: strict_sorted_keys_def id_take_nth_drop [symmetric])
  then show ?thesis
    unfolding i(2) strict_sorted_keys_def by (auto simp: sorted_wrt_append)
qed

lemma stm_delitem_map_of:
  assumes "strict_sorted_keys T" and "stm_delitem T k = Inr T'"
  shows "map_of (pairs T') = (map_of (pairs T))(k := None)"
proof -
  from assms obtain i where i: "i < length T" "key (T ! i) = k"
    "T' = take i T @ drop (Suc i) T"
    by (rule stm_delitem_Inr)
  have T: "T = take i T @ T ! i # drop (Suc i) T"
    using i(1) by (simp add: id_take_nth_drop)
  from strict_sorted_distinct [OF assms(1)]
  have d: "distinct (map key (take i T @ T ! i # drop (Suc i) T))"
    using T by simp
  then have "k \<notin> key ` set (take i T)" "k \<notin> key ` set (drop (Suc i) T)"
    using i(2) by auto
  then have none: "map_of (pairs (take i T)) k = None" "map_of (pairs (drop (Suc i) T)) k = None"
    by (simp_all add: map_of_eq_None_iff)
  have "map_of (pairs T) = map_of (pairs (take i T @ T ! i # drop (Suc i) T))"
    using T by simp
  then show ?thesis
    unfolding i(3) using none i(2)
    by (auto simp: fun_eq_iff map_add_def split: option.splits)
qed

lemma stm_reachable_sorted: "stm_reachable T \<Longrightarrow> strict_sorted_keys T"
  by (induction rule: stm_reachable.induct)
     (simp_all add: strict_sorted_keys_def [of "[]"] stm_setitem_sorted stm_delitem_sorted)

lemma stm_range_loop_takeWhile:
  "stm_range_loop T stop j =
     takeWhile (\<lambda>(k, v). stop = None \<or> k < the stop) (drop j (pairs T))"
proof (induction T stop j rule: stm_range_loop.induct)
  case (1 T stop j)
  show ?case
  proof (cases "j < length T")
    case False
    then show ?thesis
      by (subst stm_range_loop.simps) (simp add: pairs_def)
  next
    case True
    then have dr: "drop j (pairs T) = (key (T ! j), val (T ! j)) # drop (Suc j) (pairs T)"
      by (simp add: pairs_def Cons_nth_drop_Suc [symmetric])
    show ?thesis
    proof (cases "stop = None \<or> key (T ! j) < the stop")
      case False
      with True dr show ?thesis
        by (subst stm_range_loop.simps) auto
    next
      case c: True
      with True have g: "j < length T \<and> (stop = None \<or> key (T ! j) < the stop)" by simp
      from 1 [OF g] g dr show ?thesis
        by (subst stm_range_loop.simps) auto
    qed
  qed
qed

lemma takeWhile_filter_sorted:
  "sorted_wrt (<) (map fst xs) \<Longrightarrow>
   takeWhile (\<lambda>(k, v). k < (s::'k::linorder)) xs = filter (\<lambda>(k, v). k < s) xs"
proof (induction xs)
  case Nil
  then show ?case by simp
next
  case (Cons x xs)
  obtain k v where x: "x = (k, v)" by (cases x)
  show ?case
  proof (cases "k < s")
    case True
    with Cons x show ?thesis by simp
  next
    case False
    with Cons.prems x have "\<forall>y\<in>set xs. \<not> fst y < s" by fastforce
    then have "filter (\<lambda>(k, v). k < s) xs = []"
      by (auto simp: filter_empty_conv)
    with False x show ?thesis by simp
  qed
qed

lemma takeWhile_stop_filter:
  assumes "sorted_wrt (<) (map fst xs)"
  shows "takeWhile (\<lambda>(k, v). stop = None \<or> k < the stop) xs =
         filter (\<lambda>(k, v). case stop of None \<Rightarrow> True | Some s \<Rightarrow> k < (s::'k::linorder)) xs"
proof (cases stop)
  case None
  then show ?thesis by simp
next
  case (Some s)
  with takeWhile_filter_sorted [OF assms, of s] show ?thesis by simp
qed

lemma stm_find_range_filter:
  assumes "strict_sorted_keys T"
  shows "stm_find_range T start stop = filter (\<lambda>(k, v). in_range start stop k) (pairs T)"
proof -
  define j where "j = nat (case start of None \<Rightarrow> 0
                           | Some s \<Rightarrow> find_index T s 0 (int (length T) - 1))"
  have jl: "j \<le> length T"
  proof (cases start)
    case None
    then show ?thesis by (simp add: j_def)
  next
    case (Some s)
    with find_index_top(1,2) [OF assms, where k = s] show ?thesis by (simp add: j_def)
  qed
  have lo: "\<not> (case start of None \<Rightarrow> True | Some s \<Rightarrow> s \<le> key (T ! i))" if "i < j" for i
  proof (cases start)
    case None
    with that show ?thesis by (simp add: j_def)
  next
    case (Some s)
    with that find_index_top(3) [OF assms, where k = s and i = i] show ?thesis
      by (simp add: j_def)
  qed
  have hi: "case start of None \<Rightarrow> True | Some s \<Rightarrow> s \<le> key (T ! i)"
    if "j \<le> i" "i < length T" for i
  proof (cases start)
    case None
    then show ?thesis by simp
  next
    case (Some s)
    with that find_index_top(4) [OF assms, where k = s and i = i] show ?thesis
      by (simp add: j_def)
  qed
  have sorted: "sorted_wrt (<) (map fst (drop j (pairs T)))"
    using assms by (simp add: strict_sorted_keys_def drop_map [symmetric] sorted_wrt_drop)
  have a: "filter (\<lambda>(k, v). in_range start stop k) (take j (pairs T)) = []"
  proof -
    have "\<not> in_range start stop (fst x)" if "x \<in> set (take j (pairs T))" for x
    proof -
      from that jl obtain i where "i < j" "x = pairs T ! i"
        by (auto simp: in_set_conv_nth)
      with jl lo [of i] show ?thesis by (simp add: pairs_def in_range_def)
    qed
    then show ?thesis by (auto simp: filter_empty_conv)
  qed
  have b: "filter (\<lambda>(k, v). in_range start stop k) (drop j (pairs T)) =
           filter (\<lambda>(k, v). case stop of None \<Rightarrow> True | Some s \<Rightarrow> k < s) (drop j (pairs T))"
  proof (rule filter_cong [OF refl])
    fix x assume "x \<in> set (drop j (pairs T))"
    then obtain i where "j \<le> i" "i < length T" "x = pairs T ! i"
      by (auto simp: in_set_conv_nth pairs_def) (metis le_add1 add.commute less_diff_conv)
    with hi [of i] show "(case x of (k, v) \<Rightarrow> in_range start stop k) =
        (case x of (k, v) \<Rightarrow> case stop of None \<Rightarrow> True | Some s \<Rightarrow> k < s)"
      by (simp add: pairs_def in_range_def)
  qed
  have "stm_find_range T start stop =
        takeWhile (\<lambda>(k, v). stop = None \<or> k < the stop) (drop j (pairs T))"
    by (simp add: stm_find_range_def j_def stm_range_loop_takeWhile)
  also have "\<dots> = filter (\<lambda>(k, v). in_range start stop k) (drop j (pairs T))"
    using takeWhile_stop_filter [OF sorted] b by simp
  also have "\<dots> = filter (\<lambda>(k, v). in_range start stop k) (take j (pairs T) @ drop j (pairs T))"
    using a by (simp del: append_take_drop_id)
  finally show ?thesis by simp
qed

section \<open>TreeMap: searching\<close>

lemma set_inorder [simp]: "set (inorder t) = set_bintree t"
  by (induction t) auto

lemma length_inorder: "length (inorder t) = size t"
  by (induction t) auto

lemma bst_iff_sorted: "bst t \<longleftrightarrow> sorted_wrt (<) (map key (inorder t))"
  by (induction t) (auto simp: sorted_wrt_append intro: less_trans)

lemma search_rel_valid: "t \<noteq> Leaf \<Longrightarrow> subtree t (search_rel t k) \<noteq> Leaf"
  by (induction t) auto

lemma subtree_search_rel:
  "subtree t p \<noteq> Leaf \<Longrightarrow> subtree_search t p k = Inr (p @ search_rel (subtree t p) k)"
proof (induction t p k rule: subtree_search.induct)
  case (1 t p k)
  from "1.prems" obtain l e r where N: "subtree t p = Node l e r"
    by (cases "subtree t p") auto
  then have pk: "pos_key t p = Inr (key e)"
    by (simp add: pos_key_def element_def)
  have lf: "left t p = (if l = Leaf then None else Some (p @ [L]))"
    and rt: "right t p = (if r = Leaf then None else Some (p @ [R]))"
    using N by (simp_all add: left_def right_def subtree_append)
  show ?case
  proof (cases "k = key e")
    case True
    with pk N show ?thesis by (subst subtree_search.simps) simp
  next
    case ne: False
    show ?thesis
    proof (cases "k < key e")
      case True
      show ?thesis
      proof (cases "l = Leaf")
        case True
        with \<open>k < key e\<close> ne pk N lf show ?thesis by (subst subtree_search.simps) simp
      next
        case False
        with lf have l': "left t p = Some (p @ [L])" by simp
        have sl: "subtree t (p @ [L]) = l" using N by (simp add: subtree_append)
        from "1.IH"(1) [OF pk ne True l'] False sl
        have "subtree_search t (p @ [L]) k = Inr ((p @ [L]) @ search_rel l k)" by simp
        with \<open>k < key e\<close> ne pk N l' False show ?thesis
          by (subst subtree_search.simps) simp
      qed
    next
      case nl: False
      show ?thesis
      proof (cases "r = Leaf")
        case True
        with nl ne pk N rt show ?thesis by (subst subtree_search.simps) simp
      next
        case False
        with rt have r': "right t p = Some (p @ [R])" by simp
        have sr: "subtree t (p @ [R]) = r" using N by (simp add: subtree_append)
        from "1.IH"(2) [OF pk ne nl r'] False sr
        have "subtree_search t (p @ [R]) k = Inr ((p @ [R]) @ search_rel r k)" by simp
        with nl ne pk N r' False show ?thesis
          by (subst subtree_search.simps) simp
      qed
    qed
  qed
qed

lemma subtree_search_root:
  "t \<noteq> Leaf \<Longrightarrow> subtree_search t [] k = Inr (search_rel t k)"
  using subtree_search_rel [of t "[]" k] by simp

text \<open>The node at which a search ends.\<close>

lemma search_final:
  assumes "t \<noteq> Leaf"
  obtains l e r where "subtree t (search_rel t k) = Node l e r"
    and "k = key e \<or> (k < key e \<and> l = Leaf) \<or> (key e < k \<and> r = Leaf)"
proof -
  have "\<exists>l e r. subtree t (search_rel t k) = Node l e r \<and>
      (k = key e \<or> (k < key e \<and> l = Leaf) \<or> (key e < k \<and> r = Leaf))"
    using assms
  proof (induction t)
    case Leaf
    then show ?case by simp
  next
    case (Node l e r)
    then show ?case by (auto simp: not_less)
  qed
  then show ?thesis using that by blast
qed

section \<open>TreeMap: lookup and insertion\<close>

lemma modify_cong:
  "f (subtree t p) = g (subtree t p) \<Longrightarrow> modify f t p = modify g t p"
  by (induction t p rule: subtree.induct) auto

lemma element_simps [simp]:
  "element Leaf p = Inl ValueError"
  "element (Node l e r) [] = Inr e"
  "element (Node l e r) (L # p) = element l p"
  "element (Node l e r) (R # p) = element r p"
  by (simp_all add: element_def)

lemma pos_key_simps [simp]:
  "pos_key Leaf p = Inl ValueError"
  "pos_key (Node l e r) [] = Inr (key e)"
  "pos_key (Node l e r) (L # p) = pos_key l p"
  "pos_key (Node l e r) (R # p) = pos_key r p"
  by (simp_all add: pos_key_def)

lemma pos_value_simps [simp]:
  "pos_value Leaf p = Inl ValueError"
  "pos_value (Node l e r) [] = Inr (val e)"
  "pos_value (Node l e r) (L # p) = pos_value l p"
  "pos_value (Node l e r) (R # p) = pos_value r p"
  by (simp_all add: pos_value_def)

lemma tm_getitem_lookup: "tm_getitem t k = bst_lookup t k"
proof (cases "t = Leaf")
  case True
  then show ?thesis by (simp add: tm_getitem_def is_empty_def)
next
  case False
  have "(case pos_key t (search_rel t k) of Inl e \<Rightarrow> Inl e
         | Inr kp \<Rightarrow> if k \<noteq> kp then Inl KeyError else pos_value t (search_rel t k))
        = bst_lookup t k"
    using False
  proof (induction t)
    case Leaf
    then show ?case by (simp cong: if_cong sum.case_cong)
  next
    case (Node l e r)
    show ?case
    proof (cases "k = key e")
      case True
      then show ?thesis by (simp cong: if_cong sum.case_cong)
    next
      case ne: False
      show ?thesis
      proof (cases "k < key e")
        case True
        show ?thesis
        proof (cases "l = Leaf")
          case True
          with ne \<open>k < key e\<close> show ?thesis
            by (simp cong: if_cong sum.case_cong)
        next
          case False
          with Node.IH(1) ne True show ?thesis
            by (simp cong: if_cong sum.case_cong)
        qed
      next
        case nl: False
        show ?thesis
        proof (cases "r = Leaf")
          case True
          with ne nl show ?thesis
            by (simp cong: if_cong sum.case_cong)
        next
          case False
          with Node.IH(2) ne nl show ?thesis
            by (simp cong: if_cong sum.case_cong)
        qed
      qed
    qed
  qed
  with False show ?thesis
    by (simp add: tm_getitem_def is_empty_def root_def subtree_search_root)
qed

lemma modify_search_insert:
  "t \<noteq> Leaf \<Longrightarrow> modify (bst_insert k v) t (search_rel t k) = bst_insert k v t"
  by (induction t) auto

lemma tm_setitem_insert: "tm_setitem t k v = Inr (bst_insert k v t)"
proof (cases "t = Leaf")
  case True
  then show ?thesis by (simp add: tm_setitem_def is_empty_def add_root_def)
next
  case False
  let ?p = "search_rel t k"
  from False obtain l e r where N: "subtree t ?p = Node l e r"
    and c: "k = key e \<or> (k < key e \<and> l = Leaf) \<or> (key e < k \<and> r = Leaf)"
    by (rule search_final)
  have pk: "pos_key t ?p = Inr (key e)" using N by (simp add: pos_key_def element_def)
  have "(if key e = k then set_value t ?p v
         else if key e < k then add_right t ?p (Item k v)
         else add_left t ?p (Item k v)) = Inr (modify (bst_insert k v) t ?p)"
  proof (cases "k = key e")
    case True
    have "modify (\<lambda>s. Node l (e\<lparr>val := v\<rparr>) r) t ?p = modify (bst_insert k v) t ?p"
      by (rule modify_cong) (use N True in simp)
    with True N show ?thesis by (simp add: set_value_def element_def replace_def)
  next
    case ne: False
    show ?thesis
    proof (cases "k < key e")
      case True
      with c ne have l: "l = Leaf" by auto
      have "modify (\<lambda>s. Node (Node Leaf (Item k v) Leaf) e r) t ?p = modify (bst_insert k v) t ?p"
        by (rule modify_cong) (use N True ne l in simp)
      with True ne N l show ?thesis by (auto simp: add_left_def)
    next
      case False
      with c ne have r: "r = Leaf" and gt: "key e < k" by auto
      have "modify (\<lambda>s. Node l e (Node Leaf (Item k v) Leaf)) t ?p = modify (bst_insert k v) t ?p"
        by (rule modify_cong) (use N False ne r in simp)
      with gt ne N r show ?thesis by (auto simp: add_right_def)
    qed
  qed
  with False pk show ?thesis
    by (simp add: tm_setitem_def is_empty_def root_def subtree_search_root modify_search_insert)
qed

lemma bst_lookup_insert: "bst_lookup (bst_insert k v t) k = Inr v"
  by (induction t) auto

lemma keys_bst_insert:
  "key ` set_bintree (bst_insert k v t) = insert k (key ` set_bintree t)"
  by (induction t) auto

lemma bst_insert_bst: "bst t \<Longrightarrow> bst (bst_insert k v t)"
proof (induction t)
  case Leaf
  then show ?case by simp
next
  case (Node l e r)
  have kl: "\<forall>x\<in>set_bintree (bst_insert k v l). key x < key e" if "k < key e"
  proof
    fix x assume "x \<in> set_bintree (bst_insert k v l)"
    then have "key x \<in> key ` set_bintree (bst_insert k v l)" by simp
    then have "key x = k \<or> key x \<in> key ` set_bintree l" by (simp add: keys_bst_insert)
    with that Node.prems show "key x < key e" by auto
  qed
  have kr: "\<forall>x\<in>set_bintree (bst_insert k v r). key e < key x" if "key e < k"
  proof
    fix x assume "x \<in> set_bintree (bst_insert k v r)"
    then have "key x \<in> key ` set_bintree (bst_insert k v r)" by simp
    then have "key x = k \<or> key x \<in> key ` set_bintree r" by (simp add: keys_bst_insert)
    with that Node.prems show "key e < key x" by auto
  qed
  from Node kl kr show ?case by (auto simp: not_less)
qed

lemma bst_lookup_iff:
  "bst t \<Longrightarrow> (\<exists>v. bst_lookup t k = Inr v) \<longleftrightarrow> k \<in> key ` set_bintree t"
  by (induction t) (auto simp: image_iff)

section \<open>TreeMap: deletion\<close>

lemma modify_append: "modify f t (p @ q) = modify (\<lambda>s. modify f s q) t p"
  by (induction t p rule: subtree.induct) auto

lemma modify_modify: "modify f (modify g t p) p = modify (\<lambda>s. f (g s)) t p"
  by (induction t p rule: subtree.induct) auto

lemma subtree_modify: "subtree t p \<noteq> Leaf \<Longrightarrow> subtree (modify g t p) p = g (subtree t p)"
  by (induction t p rule: subtree.induct) auto

lemma element_append: "element t (p @ q) = element (subtree t p) q"
  by (simp add: element_def subtree_append)

lemma last_rel_node:
  "l \<noteq> Leaf \<Longrightarrow> \<exists>a. subtree l (last_rel l) = Node a (last_item d l) Leaf"
  by (induction l arbitrary: d) auto

lemma modify_last_rel:
  "l \<noteq> Leaf \<Longrightarrow> subtree l (last_rel l) = Node a x Leaf
   \<Longrightarrow> modify (\<lambda>s. a) l (last_rel l) = del_last l"
  by (induction l) auto

lemma tree_delete_right_leaf:
  "subtree t p = Node a x Leaf \<Longrightarrow> tree_delete t p = Inr (modify (\<lambda>s. a) t p)"
  by (cases a) (simp_all add: tree_delete_def)

lemma tree_delete_left_leaf:
  "subtree t p = Node Leaf x r \<Longrightarrow> tree_delete t p = Inr (modify (\<lambda>s. r) t p)"
  by (cases r) (simp_all add: tree_delete_def)

lemma tm_delete_del_root:
  assumes "subtree t p \<noteq> Leaf"
  shows "tm_delete t p = Inr (modify del_root t p)"
proof -
  from assms obtain l e r where N: "subtree t p = Node l e r"
    by (cases "subtree t p") auto
  have v: "pos2node t p = Inr ()" using assms by (simp add: pos2node_def)
  have lf: "left t p = (if l = Leaf then None else Some (p @ [L]))"
    and rt: "right t p = (if r = Leaf then None else Some (p @ [R]))"
    using N by (simp_all add: left_def right_def subtree_append)
  show ?thesis
  proof (cases "l \<noteq> Leaf \<and> r \<noteq> Leaf")
    case False
    have td: "tree_delete t p = Inr (modify del_root t p)"
    proof (cases "r = Leaf")
      case True
      have "modify (\<lambda>s. l) t p = modify del_root t p"
        by (rule modify_cong) (use N True in simp)
      with N True show ?thesis by (simp add: tree_delete_right_leaf)
    next
      case r: False
      with False have l: "l = Leaf" by simp
      have "modify (\<lambda>s. r) t p = modify del_root t p"
        by (rule modify_cong) (use N r l in simp)
      with N r l show ?thesis by (simp add: tree_delete_left_leaf)
    qed
    from False v lf rt td show ?thesis by (auto simp: tm_delete_def)
  next
    case True
    then have l: "l \<noteq> Leaf" and r: "r \<noteq> Leaf" by simp_all
    let ?rep = "(p @ [L]) @ last_rel l"
    have sl: "subtree t (p @ [L]) = l" using N by (simp add: subtree_append)
    have rep: "subtree_last_position t (p @ [L]) = ?rep"
      by (simp add: last_position_rel sl)
    from last_rel_node [OF l, of e] obtain a where
      a: "subtree l (last_rel l) = Node a (last_item e l) Leaf" by blast
    have el: "element t ?rep = Inr (last_item e l)"
      using a N by (simp add: element_def subtree_append)
    let ?t1 = "modify (\<lambda>s. Node l (last_item e l) r) t p"
    have rp: "replace t p (last_item e l) = Inr ?t1"
      using N by (simp add: replace_def)
    have "subtree ?t1 ?rep = subtree (subtree ?t1 p) (L # last_rel l)"
      by (simp add: subtree_append)
    also have "\<dots> = Node a (last_item e l) Leaf"
      using subtree_modify [OF assms] a by simp
    finally have s1: "subtree ?t1 ?rep = Node a (last_item e l) Leaf" .
    have "modify (\<lambda>s. a) ?t1 ?rep = modify (\<lambda>s. modify (\<lambda>s. a) s (L # last_rel l)) ?t1 p"
      using modify_append [of "\<lambda>s. a" ?t1 p "L # last_rel l"] by simp
    also have "\<dots> = modify (\<lambda>s. Node (modify (\<lambda>s. a) l (last_rel l)) (last_item e l) r) t p"
      by (simp add: modify_modify)
    also have "\<dots> = modify del_root t p"
      by (rule modify_cong) (use N l r modify_last_rel [OF l a] in simp)
    finally have m: "modify (\<lambda>s. a) ?t1 ?rep = modify del_root t p" .
    have td: "tree_delete ?t1 ?rep = Inr (modify del_root t p)"
      using tree_delete_right_leaf [OF s1] m by simp
    from True v lf rt rep el rp td show ?thesis
      by (simp add: tm_delete_def Let_def)
  qed
qed

lemma tm_delete_invalid: "subtree t p = Leaf \<Longrightarrow> tm_delete t p = Inl ValueError"
  by (simp add: tm_delete_def pos2node_def)

lemma inorder_del_last: "l \<noteq> Leaf \<Longrightarrow> inorder (del_last l) @ [last_item d l] = inorder l"
  by (induction l arbitrary: d) auto

lemma inorder_del_root: "inorder (del_root (Node l e r)) = inorder l @ inorder r"
  using inorder_del_last [of l e] by auto

lemma inorder_modify:
  "subtree t p \<noteq> Leaf \<Longrightarrow>
   \<exists>pre post. inorder t = pre @ inorder (subtree t p) @ post \<and>
     (\<forall>f. inorder (modify f t p) = pre @ inorder (f (subtree t p)) @ post)"
proof (induction t p rule: subtree.induct)
  case (1 t)
  have "inorder t = [] @ inorder (subtree t []) @ [] \<and>
      (\<forall>f. inorder (modify f t []) = [] @ inorder (f (subtree t [])) @ [])" by simp
  then show ?case by blast
next
  case (2 d p)
  then show ?case by simp
next
  case (3 l e r p)
  then obtain pre post where "inorder l = pre @ inorder (subtree l p) @ post"
    "\<forall>f. inorder (modify f l p) = pre @ inorder (f (subtree l p)) @ post" by auto
  then have "inorder (Node l e r) = pre @ inorder (subtree (Node l e r) (L # p)) @ (post @ e # inorder r) \<and>
      (\<forall>f. inorder (modify f (Node l e r) (L # p)) =
         pre @ inorder (f (subtree (Node l e r) (L # p))) @ (post @ e # inorder r))" by simp
  then show ?case by blast
next
  case (4 l e r p)
  then obtain pre post where "inorder r = pre @ inorder (subtree r p) @ post"
    "\<forall>f. inorder (modify f r p) = pre @ inorder (f (subtree r p)) @ post" by auto
  then have "inorder (Node l e r) = (inorder l @ e # pre) @ inorder (subtree (Node l e r) (R # p)) @ post \<and>
      (\<forall>f. inorder (modify f (Node l e r) (R # p)) =
         (inorder l @ e # pre) @ inorder (f (subtree (Node l e r) (R # p))) @ post)" by simp
  then show ?case by blast
qed

lemma tm_delete_inorder:
  assumes "tm_delete t p = Inr t'"
  obtains pre post l e r where "subtree t p = Node l e r"
    and "inorder t = pre @ inorder l @ [e] @ inorder r @ post"
    and "inorder t' = pre @ inorder l @ inorder r @ post"
proof -
  from assms have v: "subtree t p \<noteq> Leaf"
    using tm_delete_invalid [of t p] by auto
  then obtain l e r where N: "subtree t p = Node l e r"
    by (cases "subtree t p") auto
  from assms tm_delete_del_root [OF v] have t': "t' = modify del_root t p" by simp
  from inorder_modify [OF v] obtain pre post where
    "inorder t = pre @ inorder (subtree t p) @ post"
    "inorder (modify del_root t p) = pre @ inorder (del_root (subtree t p)) @ post" by blast
  with N t' have "inorder t = pre @ inorder l @ [e] @ inorder r @ post"
    "inorder t' = pre @ inorder l @ inorder r @ post"
    by (simp_all add: inorder_del_root del: del_root.simps)
  with N show ?thesis by (rule that)
qed

section \<open>TreeMap: the BST invariant\<close>

lemma tm_delete_bst:
  assumes "bst t" and "tm_delete t p = Inr t'"
  shows "bst t'"
proof -
  from assms(2) obtain pre post l e r where
    io: "inorder t = pre @ inorder l @ [e] @ inorder r @ post"
        "inorder t' = pre @ inorder l @ inorder r @ post"
    by (rule tm_delete_inorder)
  from assms(1) have "sorted_wrt (<) (map key (pre @ inorder l @ [e] @ inorder r @ post))"
    by (simp add: bst_iff_sorted io(1))
  then have "sorted_wrt (<) (map key (pre @ inorder l @ inorder r @ post))"
    by (auto simp: sorted_wrt_append)
  then show ?thesis by (simp add: bst_iff_sorted io(2))
qed

lemma tm_delitem_Inr:
  assumes "tm_delitem t k = Inr t'"
  shows "tm_delete t (search_rel t k) = Inr t' \<and> pos_key t (search_rel t k) = Inr k"
proof -
  from assms have ne: "t \<noteq> Leaf" by (auto simp: tm_delitem_def is_empty_def)
  with assms show ?thesis
    by (auto simp: tm_delitem_def is_empty_def root_def subtree_search_root
        split: sum.splits if_splits)
qed

lemma tm_reachable_bst: "tm_reachable t \<Longrightarrow> bst t"
proof (induction rule: tm_reachable.induct)
  case tm_init
  then show ?case by simp
next
  case (tm_set t k v t')
  then show ?case by (auto simp: tm_setitem_insert bst_insert_bst)
next
  case (tm_del t k t')
  from tm_delitem_Inr [OF tm_del.hyps(2)] tm_del.IH show ?case
    by (auto intro: tm_delete_bst)
next
  case (tm_delpos t p t')
  then show ?case by (auto intro: tm_delete_bst)
qed

lemma bst_distinct: "bst t \<Longrightarrow> distinct (map key (inorder t))"
  using strict_sorted_iff by (auto simp: bst_iff_sorted)

lemma tm_delete_keys:
  assumes "bst t" and "tm_delete t p = Inr t'" and "pos_key t p = Inr k"
  shows "map key (inorder t') = remove1 k (map key (inorder t))"
proof -
  from assms(2) obtain pre post l e r where N: "subtree t p = Node l e r"
    and io: "inorder t = pre @ inorder l @ [e] @ inorder r @ post"
        "inorder t' = pre @ inorder l @ inorder r @ post"
    by (rule tm_delete_inorder)
  from N assms(3) have k: "k = key e" by (simp add: pos_key_def element_def)
  from bst_distinct [OF assms(1)] have "key e \<notin> set (map key (pre @ inorder l))"
    by (simp add: io(1))
  then have "remove1 (key e) (map key (pre @ inorder l) @ key e # map key (inorder r @ post))
      = map key (pre @ inorder l) @ map key (inorder r @ post)"
    by (simp only: remove1_append) simp
  with k io show ?thesis by simp
qed

section \<open>TreeMap: deleting a position with two children\<close>

lemma tm_reachable_three:
  "tm_reachable (Node (Node Leaf (Item (1::int) (10::int)) Leaf) (Item 2 20)
                      (Node Leaf (Item 3 30) Leaf))"
proof -
  have "tm_reachable (bst_insert (3::int) (30::int) (bst_insert 1 10 (bst_insert 2 20 Leaf)))"
    by (intro tm_set [OF _ tm_setitem_insert] tm_init)
  then show ?thesis by simp
qed

text \<open>
  C3. In a reachable tree, \<open>delete(p)\<close> at a position with two children succeeds; afterwards
  \<open>p\<close> holds the Entry that the last position of \<open>p\<close>'s left subtree held, the tree has one
  node less, the BST property holds, and the in-order key list is the previous one without
  the deleted key.
\<close>

theorem tm_delete_two_children:
  assumes "tm_reachable t" and "left t p = Some lp" and "right t p = Some rp"
  shows "\<exists>t' k. tm_delete t p = Inr t' \<and> pos_key t p = Inr k \<and>
           element t' p = element t (subtree_last_position t lp) \<and>
           (\<exists>e. element t' p = Inr e) \<and>
           tree_len t' + 1 = tree_len t \<and>
           bst t \<and> bst t' \<and>
           map key (inorder t') = remove1 k (map key (inorder t))"
proof -
  note b = tm_reachable_bst [OF assms(1)]
  from assms(2) have lp: "lp = p @ [L]" and vl: "subtree t (p @ [L]) \<noteq> Leaf"
    by (auto simp: left_def split: if_splits)
  from assms(3) have vr: "subtree t (p @ [R]) \<noteq> Leaf"
    by (auto simp: right_def split: if_splits)
  from vl obtain l e r where N: "subtree t p = Node l e r"
    by (cases "subtree t p") (auto simp: subtree_append)
  with vl vr have l: "l \<noteq> Leaf" and r: "r \<noteq> Leaf" by (auto simp: subtree_append)
  from N have v: "subtree t p \<noteq> Leaf" by simp
  let ?t' = "modify del_root t p"
  have d: "tm_delete t p = Inr ?t'" by (rule tm_delete_del_root [OF v])
  have k: "pos_key t p = Inr (key e)" using N by (simp add: pos_key_def element_def)
  from last_rel_node [OF l, of e] obtain a where
    a: "subtree l (last_rel l) = Node a (last_item e l) Leaf" by blast
  have e1: "element t (subtree_last_position t lp) = Inr (last_item e l)"
    using a N by (simp add: lp last_position_rel element_def subtree_append)
  have e2: "element ?t' p = Inr (last_item e l)"
    using subtree_modify [OF v, of del_root] N l r by (simp add: element_def)
  from d obtain pre post l' e' r' where
    io: "inorder t = pre @ inorder l' @ [e'] @ inorder r' @ post"
        "inorder ?t' = pre @ inorder l' @ inorder r' @ post"
    by (rule tm_delete_inorder)
  have len: "tree_len ?t' + 1 = tree_len t"
    unfolding tree_len_def length_inorder [symmetric] io by simp
  from d k e1 e2 len b tm_delete_bst [OF b d] tm_delete_keys [OF b d k]
  show ?thesis by simp
qed

theorem tm_delete_two_children_witness:
  "tm_reachable (Node (Node Leaf (Item (1::int) (10::int)) Leaf) (Item 2 20)
                      (Node Leaf (Item 3 30) Leaf)) \<and>
   left (Node (Node Leaf (Item (1::int) (10::int)) Leaf) (Item 2 20)
              (Node Leaf (Item 3 30) Leaf)) [] = Some [L] \<and>
   right (Node (Node Leaf (Item (1::int) (10::int)) Leaf) (Item 2 20)
               (Node Leaf (Item 3 30) Leaf)) [] = Some [R] \<and>
   tm_delete (Node (Node Leaf (Item (1::int) (10::int)) Leaf) (Item 2 20)
                   (Node Leaf (Item 3 30) Leaf)) []
     = Inr (Node Leaf (Item 1 10) (Node Leaf (Item 3 30) Leaf))"
proof -
  let ?t = "Node (Node Leaf (Item (1::int) (10::int)) Leaf) (Item 2 20)
                 (Node Leaf (Item 3 30) Leaf)"
  have l: "left ?t [] = Some [L]" and r: "right ?t [] = Some [R]"
    by (simp_all add: left_def right_def)
  from tm_delete_two_children [OF tm_reachable_three l r]
  obtain t' where "tm_delete ?t [] = Inr t'" by blast
  moreover have "tm_delete ?t [] = Inr (modify del_root ?t [])"
    by (rule tm_delete_del_root) simp
  ultimately show ?thesis using tm_reachable_three l r by simp
qed

section \<open>TreeMap: iteration\<close>

lemma element_valid: "element t p = Inr it \<longleftrightarrow> (\<exists>l r. subtree t p = Node l it r)"
  by (cases "subtree t p") (auto simp: element_def)

lemma element_in_set: "element t p = Inr it \<Longrightarrow> it \<in> set_bintree t"
proof (induction t arbitrary: p)
  case Leaf
  then show ?case by simp
next
  case (Node l e r)
  show ?case
  proof (cases p)
    case Nil
    with Node.prems show ?thesis by simp
  next
    case (Cons d q)
    with Node show ?thesis by (cases d) auto
  qed
qed

lemma first_rel_valid: "t \<noteq> Leaf \<Longrightarrow> subtree t (first_rel t) \<noteq> Leaf"
  using inpos_first [of t] inpos_valid [of "first_rel t" t] by auto

lemma inpos_elements: "map (element t) (inpos t) = map Inr (inorder t)"
  by (induction t) (simp_all add: comp_def)

lemma succ_valid:
  assumes "subtree t p \<noteq> Leaf" and "succ t p = Some q"
  shows "subtree t q \<noteq> Leaf"
proof -
  from inpos_succ [OF assms(1)] obtain xs ys where
    xy: "inpos t = xs @ p # ys" "succ t p = next_of ys" by blast
  with assms(2) have "q \<in> set (inpos t)"
    by (cases ys) (auto simp: next_of_def)
  then show ?thesis by (simp add: inpos_valid)
qed

lemma rest_opt_step:
  assumes "subtree t q \<noteq> Leaf"
  shows "rest_opt t (Some q) = q # rest_opt t (succ t q)"
  using rest_step [OF assms] by (simp add: rest_opt_def)

lemma first_closed: "first t = (if t = Leaf then None else Some (first_rel t))"
  by (cases t) (simp_all add: first_def tree_len_def root_def is_empty_def first_position_rel)

lemma rest_first: "t \<noteq> Leaf \<Longrightarrow> rest t (first_rel t) = inpos t"
proof -
  assume "t \<noteq> Leaf"
  from inpos_first [OF this] obtain zs where zs: "inpos t = [] @ first_rel t # zs" by auto
  from rest_split [OF this] zs show ?thesis by simp
qed

lemma rest_opt_first: "rest_opt t (first t) = inpos t"
  by (cases "t = Leaf") (simp_all add: first_closed rest_opt_def rest_first)

lemma tm_iter_loop_rest:
  assumes "map (element t) (rest_opt t p) = map Inr its"
    and "\<And>q. p = Some q \<Longrightarrow> subtree t q \<noteq> Leaf"
  shows "tm_iter_loop t p = Inr (map key its)"
  using assms
proof (induction its arbitrary: p)
  case Nil
  have "p = None"
  proof (cases p)
    case None then show ?thesis .
  next
    case (Some q)
    with Nil(2) have "subtree t q \<noteq> Leaf" by simp
    from rest_opt_step [OF this] Nil(1) Some show ?thesis by simp
  qed
  then show ?case by (subst tm_iter_loop.simps) simp
next
  case (Cons it its)
  then obtain q where q: "p = Some q" by (cases p) (auto simp: rest_opt_def)
  with Cons.prems(2) have v: "subtree t q \<noteq> Leaf" by simp
  from Cons.prems(1) q rest_opt_step [OF v]
  have e: "element t q = Inr it" and r: "map (element t) (rest_opt t (succ t q)) = map Inr its"
    by simp_all
  have "tm_iter_loop t (succ t q) = Inr (map key its)"
    by (rule Cons.IH [OF r]) (rule succ_valid [OF v])
  with e q v show ?case
    by (subst tm_iter_loop.simps) (simp add: pos_key_def tm_after_succ)
qed

lemma tm_iter_inorder: "tm_iter t = Inr (map key (inorder t))"
  unfolding tm_iter_def
proof (rule tm_iter_loop_rest)
  show "map (element t) (rest_opt t (first t)) = map Inr (inorder t)"
    by (simp add: rest_opt_first inpos_elements)
next
  fix q assume "first t = Some q"
  then show "subtree t q \<noteq> Leaf"
    by (auto simp: first_closed first_rel_valid split: if_splits)
qed

end
